theory Spec2Isabelle
  imports Main
begin

section \<open>The environment of the controller\<close>

text \<open>
  \<^verbatim>\<open>hlerr.c\<close> runs a command, reads the command's standard output and standard error
  from two pipes, and writes both to its own descriptors, the standard-error bytes between
  colour markers. The controller (\<^verbatim>\<open>parent\<close> and the functions it calls) is modelled here;
  \<^verbatim>\<open>main\<close>, which makes the pipes and forks, and \<^verbatim>\<open>child\<close>, which runs the command, are
  not: \<^verbatim>\<open>parent\<close> is given the two pipes, and the child is what the scripts say of it.

  Every system call of the controller gets its result from a script: the list of the results
  the operating system gives to the successive calls of that kind, in call order. A script
  that runs out is the fault \<open>Exhausted\<close>: the script does not describe the run any
  further. A run is a result \<open>Inr\<close>.
\<close>

datatype fault = Exhausted | OutOfBounds

datatype errno = EINTR | EIO | EBADF | EAGAIN | ECHILD | ENOMEM

text \<open>The flags of \<^verbatim>\<open>revents\<close>; a bit mask of the source is the set of its flags.\<close>

datatype pollflag = POLLIN | POLLPRI | POLLERR | POLLHUP | POLLNVAL

datatype close_resp = CloseOk | CloseErr errno

datatype poll_resp =
    PollErr errno
  | PollOk "pollflag set" "pollflag set"

text \<open>
  A one-byte \<^verbatim>\<open>read\<close> stores a byte and returns 1, or stores nothing and returns 0 (end of
  stream), or fails with -1.
\<close>

datatype read_resp = RdByte char | RdEof | RdErr errno

text \<open>
  \<open>WrAccept k\<close>: the sink takes at most \<open>k\<close> of the bytes offered, so that \<^verbatim>\<open>write\<close> returns
  the smaller of \<open>k\<close> and the length offered.
\<close>

datatype write_resp = WrAccept nat | WrErr errno

datatype wait_resp = WaitErr errno | WaitOk int int

text \<open>
  What the controller does to the outside, in program order. \<open>Write fd bs\<close> is one call of
  \<^verbatim>\<open>write_all_nointr\<close> on \<open>fd\<close>, with the bytes the sink accepted during that call.
\<close>

datatype event =
    Close int
  | Write int "char list"
  | Perror string
  | Printf string
  | Eprintf string

text \<open>
  The three globals of the source, the remaining scripts and the events so far. Each
  descriptor has its own script of \<^verbatim>\<open>read\<close>, the stream of the pipe behind it.
  \<open>indet\<close> gives the indeterminate values of the uninitialised locals \<^verbatim>\<open>char c\<close>, one for
  each declaration executed.
\<close>

record state =
  in_stderr :: bool
  stdout_line :: "char list"
  stdout_line_pos :: nat
  indet :: "char list"
  closes :: "close_resp list"
  reads :: "int \<Rightarrow> read_resp list"
  writes :: "write_resp list"
  waits :: "wait_resp list"
  trace :: "event list"

definition emit :: "event \<Rightarrow> state \<Rightarrow> state" where
  "emit e s = s\<lparr>trace := trace s @ [e]\<rparr>"

section \<open>Constants\<close>

text \<open>
  A \<^verbatim>\<open>char\<close> array initialised from a string literal holds the characters and the
  terminating NUL; \<^verbatim>\<open>sizeof\<close> of an array of \<^verbatim>\<open>char\<close> is its number of elements.
\<close>

definition c_string :: "string \<Rightarrow> char list" where
  "c_string lit = lit @ [CHR 0x00]"

definition sizeof :: "char list \<Rightarrow> nat" where
  "sizeof arr = length arr"

definition STDERR_BEGIN_MARKER :: "char list" where
  "STDERR_BEGIN_MARKER = c_string (CHR 0x1B # ''[31m'')"

definition STDERR_END_MARKER :: "char list" where
  "STDERR_END_MARKER = c_string (CHR 0x1B # ''[m'')"

definition STDOUT_FILENO :: int where "STDOUT_FILENO = 1"
definition STDERR_FILENO :: int where "STDERR_FILENO = 2"
definition EXIT_SUCCESS :: int where "EXIT_SUCCESS = 0"
definition EXIT_FAILURE :: int where "EXIT_FAILURE = 1"

text \<open>The globals as the program starts: \<^verbatim>\<open>stdout_line\<close> is 1024 zero bytes.\<close>

definition init_state ::
  "char list \<Rightarrow> close_resp list \<Rightarrow> (int \<Rightarrow> read_resp list) \<Rightarrow> write_resp list
     \<Rightarrow> wait_resp list \<Rightarrow> state" where
  "init_state js cs rs ws ts =
     \<lparr>in_stderr = False, stdout_line = replicate 1024 (CHR 0x00), stdout_line_pos = 0,
      indet = js, closes = cs, reads = rs, writes = ws, waits = ts, trace = []\<rparr>"

text \<open>A state in which the globals are as the program starts, whatever the scripts hold.\<close>

definition initial :: "state \<Rightarrow> bool" where
  "initial s \<longleftrightarrow>
     \<not> in_stderr s \<and> stdout_line s = replicate 1024 (CHR 0x00) \<and> stdout_line_pos s = 0 \<and>
     trace s = []"

section \<open>Reading and writing without interruption\<close>

text \<open>
  \<^verbatim>\<open>read_nointr\<close>, called with \<^verbatim>\<open>nbyte = 1\<close>: the loop calls \<^verbatim>\<open>read\<close> again while it
  fails with \<^verbatim>\<open>EINTR\<close>. The argument \<open>c\<close> is the content of the one-byte buffer before
  the call, the result holds its content after.
\<close>

fun read_loop :: "read_resp list \<Rightarrow> char \<Rightarrow> fault + (int \<times> char \<times> read_resp list)" where
  "read_loop [] c = Inl Exhausted"
| "read_loop (RdByte b # rs) c = Inr (1, b, rs)"
| "read_loop (RdEof # rs) c = Inr (0, c, rs)"
| "read_loop (RdErr e # rs) c = (if e = EINTR then read_loop rs c else Inr (- 1, c, rs))"

definition read_nointr :: "int \<Rightarrow> char \<Rightarrow> state \<Rightarrow> fault + ((int \<times> char) \<times> state)" where
  "read_nointr fd c s =
     (case read_loop (reads s fd) c of
        Inl f \<Rightarrow> Inl f
      | Inr (numread, c', rs) \<Rightarrow> Inr ((numread, c'), s\<lparr>reads := (reads s)(fd := rs)\<rparr>))"

text \<open>\<^verbatim>\<open>write_nointr\<close>: one \<^verbatim>\<open>write\<close> of \<open>nbyte\<close> bytes, called again while it fails with \<^verbatim>\<open>EINTR\<close>.\<close>

fun write_nointr :: "write_resp list \<Rightarrow> nat \<Rightarrow> fault + (int \<times> write_resp list)" where
  "write_nointr [] nbyte = Inl Exhausted"
| "write_nointr (WrAccept k # ws) nbyte = Inr (int (min k nbyte), ws)"
| "write_nointr (WrErr e # ws) nbyte = (if e = EINTR then write_nointr ws nbyte else Inr (- 1, ws))"

text \<open>
  The loop of \<^verbatim>\<open>write_all_nointr\<close>. The result is the return value, \<^verbatim>\<open>numwritten\<close> and the
  rest of the script. Every pass takes at least one result from the script.
\<close>

function write_all_loop ::
  "write_resp list \<Rightarrow> nat \<Rightarrow> nat \<Rightarrow> fault + (int \<times> nat \<times> write_resp list)" where
  "write_all_loop ws nbyte numwritten =
     (if numwritten < nbyte then
        (case write_nointr ws (nbyte - numwritten) of
           Inl f \<Rightarrow> Inl f
         | Inr (rc, ws') \<Rightarrow>
             if rc = - 1 then Inr (rc, numwritten, ws')
             else write_all_loop ws' nbyte (numwritten + nat rc))
      else Inr (0, numwritten, ws))"
  by pat_completeness auto
termination
proof -
  have shorter: "length ws' < length ws"
    if "write_nointr ws n = Inr (rc, ws')" for ws n rc ws'
    using that by (induction ws n rule: write_nointr.induct) (auto split: if_splits)
  show ?thesis
    by (relation "measure (\<lambda>(ws, nbyte, numwritten). length ws)") (auto dest: shorter)
qed

declare write_all_loop.simps [simp del]

definition write_all_nointr :: "int \<Rightarrow> char list \<Rightarrow> nat \<Rightarrow> state \<Rightarrow> fault + (int \<times> state)" where
  "write_all_nointr fd buf nbyte s =
     (case write_all_loop (writes s) nbyte 0 of
        Inl f \<Rightarrow> Inl f
      | Inr (rc, numwritten, ws) \<Rightarrow>
          let s1 = emit (Write fd (take numwritten buf)) (s\<lparr>writes := ws\<rparr>)
          in if rc = - 1 then Inr (rc, emit (Perror ''write()'') s1) else Inr (rc, s1))"

section \<open>The output renderer\<close>

definition set_stderr :: "bool \<Rightarrow> state \<Rightarrow> fault + (int \<times> state)" where
  "set_stderr is_stderr s =
     (if is_stderr = in_stderr s then Inr (0, s)
      else
        let s1 = s\<lparr>in_stderr := is_stderr\<rparr>
        in if in_stderr s1
           then write_all_nointr STDERR_FILENO STDERR_BEGIN_MARKER (sizeof STDERR_BEGIN_MARKER) s1
           else write_all_nointr STDERR_FILENO STDERR_END_MARKER (sizeof STDERR_END_MARKER) s1)"

definition flush_stdout_line :: "state \<Rightarrow> fault + (int \<times> state)" where
  "flush_stdout_line s =
     (case set_stderr False s of
        Inl f \<Rightarrow> Inl f
      | Inr (rc, s1) \<Rightarrow>
          if rc \<noteq> 0 then Inr (1, s1)
          else
            (case write_all_nointr STDOUT_FILENO (stdout_line s1) (stdout_line_pos s1) s1 of
               Inl f \<Rightarrow> Inl f
             | Inr (rc', s2) \<Rightarrow>
                 if rc' \<noteq> 0 then Inr (1, s2)
                 else Inr (0, s2\<lparr>stdout_line_pos := 0\<rparr>)))"

text \<open>
  \<^verbatim>\<open>stdout_putc\<close>. The store \<^verbatim>\<open>stdout_line[stdout_line_pos++] = c\<close> at an index outside
  the array is the fault \<open>OutOfBounds\<close>.
\<close>

definition stdout_putc :: "char \<Rightarrow> state \<Rightarrow> fault + (int \<times> state)" where
  "stdout_putc c s =
     (case (if stdout_line_pos s \<ge> sizeof (stdout_line s) then flush_stdout_line s
            else Inr (0, s)) of
        Inl f \<Rightarrow> Inl f
      | Inr (rc, s1) \<Rightarrow>
          if rc \<noteq> 0 then Inr (1, s1)
          else if \<not> stdout_line_pos s1 < sizeof (stdout_line s1) then Inl OutOfBounds
          else
            let s2 = s1\<lparr>stdout_line := (stdout_line s1)[stdout_line_pos s1 := c],
                        stdout_line_pos := stdout_line_pos s1 + 1\<rparr>
            in if c = CHR 0x0A
               then (case flush_stdout_line s2 of
                       Inl f \<Rightarrow> Inl f
                     | Inr (rc', s3) \<Rightarrow> if rc' \<noteq> 0 then Inr (1, s3) else Inr (0, s3))
               else Inr (0, s2))"

definition stderr_putc :: "char \<Rightarrow> state \<Rightarrow> fault + (int \<times> state)" where
  "stderr_putc c s =
     (case set_stderr True s of
        Inl f \<Rightarrow> Inl f
      | Inr (rc, s1) \<Rightarrow>
          if rc \<noteq> 0 then Inr (1, s1)
          else
            (case write_all_nointr STDERR_FILENO [c] 1 s1 of
               Inl f \<Rightarrow> Inl f
             | Inr (rc', s2) \<Rightarrow> if rc' \<noteq> 0 then Inr (1, s2) else Inr (0, s2)))"

section \<open>The multiplexer\<close>

text \<open>
  The body of \<^verbatim>\<open>if (pfd[0].revents & (POLLIN | POLLPRI))\<close>: declare \<^verbatim>\<open>c\<close>, read one
  byte into it, hand \<^verbatim>\<open>c\<close> to \<^verbatim>\<open>stdout_putc\<close>, whose return value is dropped. The
  result \<open>False\<close> is \<^verbatim>\<open>goto reap_child\<close>, the result \<open>True\<close> is \<^verbatim>\<open>got_stdout = true\<close>.
\<close>

definition pump_stdout :: "int \<Rightarrow> state \<Rightarrow> fault + (bool \<times> state)" where
  "pump_stdout fd s =
     (case indet s of
        [] \<Rightarrow> Inl Exhausted
      | c0 # js \<Rightarrow>
          (case read_nointr fd c0 (s\<lparr>indet := js\<rparr>) of
             Inl f \<Rightarrow> Inl f
           | Inr ((rc, c), s1) \<Rightarrow>
               if rc = - 1 then Inr (False, emit (Perror ''read() from stdout pipe'') s1)
               else
                 (case stdout_putc c s1 of
                    Inl f \<Rightarrow> Inl f
                  | Inr (_, s2) \<Rightarrow> Inr (True, s2))))"

text \<open>The body of \<^verbatim>\<open>if (pfd[1].revents & (POLLIN | POLLPRI))\<close>, likewise.\<close>

definition pump_stderr :: "int \<Rightarrow> state \<Rightarrow> fault + (bool \<times> state)" where
  "pump_stderr fd s =
     (case indet s of
        [] \<Rightarrow> Inl Exhausted
      | c0 # js \<Rightarrow>
          (case read_nointr fd c0 (s\<lparr>indet := js\<rparr>) of
             Inl f \<Rightarrow> Inl f
           | Inr ((rc, c), s1) \<Rightarrow>
               if rc = - 1 then Inr (False, emit (Perror ''read() from stderr pipe'') s1)
               else
                 (case stderr_putc c s1 of
                    Inl f \<Rightarrow> Inl f
                  | Inr (_, s2) \<Rightarrow> Inr (True, s2))))"

text \<open>
  One pass through the body of \<^verbatim>\<open>for (;;)\<close>, given the result of its \<^verbatim>\<open>poll\<close>.
  \<open>Leave\<close> is \<^verbatim>\<open>goto reap_child\<close> or \<^verbatim>\<open>break\<close>, which both continue at the label
  \<^verbatim>\<open>reap_child\<close>; \<open>Again\<close> is the next pass.
\<close>

datatype ctl = Leave | Again

definition iteration :: "int \<Rightarrow> int \<Rightarrow> poll_resp \<Rightarrow> state \<Rightarrow> fault + (ctl \<times> state)" where
  "iteration fd0 fd1 p s =
     (case p of
        PollErr e \<Rightarrow> Inr (Leave, emit (Perror ''poll()'') s)
      | PollOk revents0 revents1 \<Rightarrow>
          if revents0 \<inter> {POLLERR, POLLNVAL} \<noteq> {} \<or> revents1 \<inter> {POLLERR, POLLNVAL} \<noteq> {}
          then Inr (Leave, emit (Eprintf (''stream error'' @ [CHR 0x0A])) s)
          else
            (case (if revents0 \<inter> {POLLIN, POLLPRI} \<noteq> {} then pump_stdout fd0 s
                   else Inr (True, s)) of
               Inl f \<Rightarrow> Inl f
             | Inr (go0, s1) \<Rightarrow>
                 if \<not> go0 then Inr (Leave, s1)
                 else
                   (case (if revents1 \<inter> {POLLIN, POLLPRI} \<noteq> {} then pump_stderr fd1 s1
                          else Inr (True, s1)) of
                      Inl f \<Rightarrow> Inl f
                    | Inr (go1, s2) \<Rightarrow>
                        if \<not> go1 then Inr (Leave, s2)
                        else
                          let got_stdout = (revents0 \<inter> {POLLIN, POLLPRI} \<noteq> {});
                              got_stderr = (revents1 \<inter> {POLLIN, POLLPRI} \<noteq> {})
                          in if \<not> got_stdout \<and> \<not> got_stderr then Inr (Leave, s2)
                             else Inr (Again, s2))))"

text \<open>
  The loop \<^verbatim>\<open>for (;;)\<close> over the script of \<^verbatim>\<open>poll\<close>; the result holds the part of the
  script that the loop did not use.
\<close>

fun parent_loop ::
  "int \<Rightarrow> int \<Rightarrow> poll_resp list \<Rightarrow> state \<Rightarrow> fault + (poll_resp list \<times> state)" where
  "parent_loop fd0 fd1 [] s = Inl Exhausted"
| "parent_loop fd0 fd1 (p # ps) s =
     (case iteration fd0 fd1 p s of
        Inl f \<Rightarrow> Inl f
      | Inr (Leave, s1) \<Rightarrow> Inr (ps, s1)
      | Inr (Again, s1) \<Rightarrow> parent_loop fd0 fd1 ps s1)"

section \<open>The reaper\<close>

text \<open>
  The macros of \<^verbatim>\<open><sys/wait.h>\<close> are not part of the repository; they are taken as the
  GNU C library defines them: the low seven bits of the status hold the terminating signal
  (0 after an exit, 127 for a stopped child), the next eight bits the exit code.
\<close>

definition WTERMSIG :: "int \<Rightarrow> int" where
  "WTERMSIG status = status mod 128"

definition WEXITSTATUS :: "int \<Rightarrow> int" where
  "WEXITSTATUS status = (status div 256) mod 256"

definition WIFEXITED :: "int \<Rightarrow> bool" where
  "WIFEXITED status = (WTERMSIG status = 0)"

definition WIFSIGNALED :: "int \<Rightarrow> bool" where
  "WIFSIGNALED status = (WTERMSIG status \<noteq> 0 \<and> WTERMSIG status \<noteq> 127)"

text \<open>
  \<^verbatim>\<open>get_signal_name\<close>: the cases of the \<^verbatim>\<open>switch\<close> in their order. The numbers of the
  signals come from \<^verbatim>\<open><signal.h>\<close>, not from the repository; these are the numbers of Linux
  on x86.
\<close>

definition signal_names :: "(int \<times> string) list" where
  "signal_names =
     [(6, ''SIGABRT''), (14, ''SIGALRM''), (7, ''SIGBUS''), (17, ''SIGCHLD''),
      (18, ''SIGCONT''), (8, ''SIGFPE''), (1, ''SIGHUP''), (4, ''SIGILL''),
      (2, ''SIGINT''), (9, ''SIGKILL''), (13, ''SIGPIPE''), (3, ''SIGQUIT''),
      (11, ''SIGSEGV''), (19, ''SIGSTOP''), (15, ''SIGTERM''), (20, ''SIGTSTP''),
      (21, ''SIGTTIN''), (22, ''SIGTTOU''), (10, ''SIGUSR1''), (12, ''SIGUSR2''),
      (29, ''SIGPOLL''), (27, ''SIGPROF''), (31, ''SIGSYS''), (5, ''SIGTRAP''),
      (23, ''SIGURG''), (26, ''SIGVTALRM''), (24, ''SIGXCPU''), (25, ''SIGXFSZ'')]"

definition get_signal_name :: "int \<Rightarrow> string option" where
  "get_signal_name signal = map_of signal_names signal"

text \<open>The conversion \<^verbatim>\<open>%d\<close> of \<^verbatim>\<open>printf\<close>: the decimal digits, after a minus sign if negative.\<close>

fun digits :: "nat \<Rightarrow> string" where
  "digits n = (if n < 10 then [''0123456789'' ! n] else digits (n div 10) @ [''0123456789'' ! (n mod 10)])"

declare digits.simps [simp del]

definition fmt_d :: "int \<Rightarrow> string" where
  "fmt_d i = (if i < 0 then CHR ''-'' # digits (nat (- i)) else digits (nat i))"

text \<open>
  The chain \<^verbatim>\<open>if (WIFEXITED(status)) ... else if (WIFSIGNALED(status)) ... else ...\<close> of
  \<^verbatim>\<open>parent\<close>. \<open>Some v\<close> is \<^verbatim>\<open>return v\<close>; \<open>None\<close> would be control leaving the chain
  at its end.
\<close>

definition report :: "int \<Rightarrow> int \<Rightarrow> state \<Rightarrow> int option \<times> state" where
  "report status wpid s =
     (if WIFEXITED status then
        (Some (WEXITSTATUS status),
         emit (Printf (CHR 0x1B # ''[34mExited with status '' @ fmt_d (WEXITSTATUS status)
                       @ CHR 0x1B # ''[m'' @ [CHR 0x0A])) s)
      else if WIFSIGNALED status then
        (case get_signal_name (WTERMSIG status) of
           Some signal_name \<Rightarrow>
             (Some EXIT_FAILURE,
              emit (Printf (CHR 0x1B # ''[34mKilled by signal '' @ fmt_d (WTERMSIG status)
                            @ '' ('' @ signal_name @ '')'' @ CHR 0x1B # ''[m'' @ [CHR 0x0A])) s)
         | None \<Rightarrow>
             (Some EXIT_FAILURE,
              emit (Printf (CHR 0x1B # ''[34mKilled by signal '' @ fmt_d (WTERMSIG status)
                            @ CHR 0x1B # ''[m'' @ [CHR 0x0A])) s))
      else
        (Some EXIT_FAILURE,
         emit (Eprintf (CHR 0x1B # ''[34mUnknown status '' @ fmt_d status
                        @ '' returned from wait() for pid '' @ fmt_d wpid
                        @ CHR 0x1B # ''[m'' @ [CHR 0x0A])) s))"

text \<open>\<^verbatim>\<open>close(fd)\<close>: the call is recorded, the result comes from the script.\<close>

definition close_fd :: "int \<Rightarrow> state \<Rightarrow> fault + (int \<times> state)" where
  "close_fd fd s =
     (case closes s of
        [] \<Rightarrow> Inl Exhausted
      | CloseOk # cs \<Rightarrow> Inr (0, emit (Close fd) (s\<lparr>closes := cs\<rparr>))
      | CloseErr e # cs \<Rightarrow> Inr (- 1, emit (Close fd) (s\<lparr>closes := cs\<rparr>)))"

text \<open>
  \<^verbatim>\<open>parent\<close> from the label \<^verbatim>\<open>reap_child\<close> on: the last flush (its return value is
  dropped), \<^verbatim>\<open>wait\<close>, the report, and the statements after the chain, which close the two
  read ends and return \<^verbatim>\<open>EXIT_SUCCESS\<close>.
\<close>

definition reap_child :: "int \<Rightarrow> int \<Rightarrow> state \<Rightarrow> fault + (int \<times> state)" where
  "reap_child fd0 fd1 s =
     (case flush_stdout_line s of
        Inl f \<Rightarrow> Inl f
      | Inr (_, s1) \<Rightarrow>
          (case waits s1 of
             [] \<Rightarrow> Inl Exhausted
           | WaitErr e # ts \<Rightarrow> Inr (EXIT_FAILURE, emit (Perror ''wait()'') (s1\<lparr>waits := ts\<rparr>))
           | WaitOk wpid status # ts \<Rightarrow>
               (case report status wpid (s1\<lparr>waits := ts\<rparr>) of
                  (Some v, s2) \<Rightarrow> Inr (v, s2)
                | (None, s2) \<Rightarrow>
                    (case close_fd fd0 s2 of
                       Inl f \<Rightarrow> Inl f
                     | Inr (_, s3) \<Rightarrow>
                         (case close_fd fd1 s3 of
                            Inl f \<Rightarrow> Inl f
                          | Inr (_, s4) \<Rightarrow> Inr (EXIT_SUCCESS, s4))))))"

text \<open>
  \<^verbatim>\<open>parent\<close> up to the label \<^verbatim>\<open>reap_child\<close>: the two write ends are closed, then the loop
  runs. \<open>stdout_pipes\<close> and \<open>stderr_pipes\<close> are the pairs (read end, write end) of the two
  pipes. The result holds the unused part of the script of \<^verbatim>\<open>poll\<close>.
\<close>

definition multiplex ::
  "int \<times> int \<Rightarrow> int \<times> int \<Rightarrow> poll_resp list \<Rightarrow> state \<Rightarrow> fault + (poll_resp list \<times> state)" where
  "multiplex stdout_pipes stderr_pipes ps s =
     (case close_fd (snd stdout_pipes) s of
        Inl f \<Rightarrow> Inl f
      | Inr (rc, s1) \<Rightarrow>
          if rc = - 1 then Inr (ps, emit (Perror ''close(stdout_pipes[1])'') s1)
          else
            (case close_fd (snd stderr_pipes) s1 of
               Inl f \<Rightarrow> Inl f
             | Inr (rc', s2) \<Rightarrow>
                 if rc' = - 1 then Inr (ps, emit (Perror ''close(stderr_pipes[1])'') s2)
                 else parent_loop (fst stdout_pipes) (fst stderr_pipes) ps s2))"

text \<open>
  \<^verbatim>\<open>parent\<close>. The result is the value returned, the unused part of the script of \<^verbatim>\<open>poll\<close>
  and the last state.
\<close>

definition parent ::
  "int \<times> int \<Rightarrow> int \<times> int \<Rightarrow> poll_resp list \<Rightarrow> state
     \<Rightarrow> fault + (int \<times> poll_resp list \<times> state)" where
  "parent stdout_pipes stderr_pipes ps s =
     (case multiplex stdout_pipes stderr_pipes ps s of
        Inl f \<Rightarrow> Inl f
      | Inr (ps', s3) \<Rightarrow>
          (case reap_child (fst stdout_pipes) (fst stderr_pipes) s3 of
             Inl f \<Rightarrow> Inl f
           | Inr (v, s4) \<Rightarrow> Inr (v, ps', s4)))"

section \<open>Notions used by the properties\<close>

text \<open>The status that the caller of the program sees: the low eight bits of the value returned.\<close>

definition exit_status :: "int \<Rightarrow> int" where
  "exit_status v = v mod 256"

text \<open>The line buffer is a 1024-byte array and the write position is inside it or just behind it.\<close>

definition line_ok :: "state \<Rightarrow> bool" where
  "line_ok s = (sizeof (stdout_line s) = 1024 \<and> stdout_line_pos s \<le> 1024)"

text \<open>A sequence of calls of \<^verbatim>\<open>stdout_putc\<close>, each return value dropped, as \<^verbatim>\<open>parent\<close> drops it.\<close>

fun stdout_putcs :: "char list \<Rightarrow> state \<Rightarrow> fault + state" where
  "stdout_putcs [] s = Inr s"
| "stdout_putcs (c # cs) s =
     (case stdout_putc c s of
        Inl f \<Rightarrow> Inl f
      | Inr (_, s1) \<Rightarrow> stdout_putcs cs s1)"

text \<open>A result of \<^verbatim>\<open>write\<close> that is a failure of the call: an error other than \<^verbatim>\<open>EINTR\<close>.\<close>

fun failing :: "write_resp \<Rightarrow> bool" where
  "failing (WrAccept k) = False"
| "failing (WrErr e) = (e \<noteq> EINTR)"

definition no_fail :: "write_resp list \<Rightarrow> bool" where
  "no_fail ws = list_all (\<lambda>r. \<not> failing r) ws"

text \<open>The blocks written to the standard output, in order.\<close>

fun stdout_blocks :: "event list \<Rightarrow> char list list" where
  "stdout_blocks [] = []"
| "stdout_blocks (Write fd bs # es) =
     (if fd = STDOUT_FILENO then bs # stdout_blocks es else stdout_blocks es)"
| "stdout_blocks (_ # es) = stdout_blocks es"

text \<open>The descriptors closed, in order.\<close>

fun closed_fds :: "event list \<Rightarrow> int list" where
  "closed_fds [] = []"
| "closed_fds (Close fd # es) = fd # closed_fds es"
| "closed_fds (_ # es) = closed_fds es"

text \<open>The descriptors of the writes, in order.\<close>

fun write_fds :: "event list \<Rightarrow> int list" where
  "write_fds [] = []"
| "write_fds (Write fd bs # es) = fd # write_fds es"
| "write_fds (_ # es) = write_fds es"

text \<open>The markers written in full.\<close>

definition begin_markers :: "event list \<Rightarrow> nat" where
  "begin_markers es = count_list es (Write STDERR_FILENO STDERR_BEGIN_MARKER)"

definition end_markers :: "event list \<Rightarrow> nat" where
  "end_markers es = count_list es (Write STDERR_FILENO STDERR_END_MARKER)"

text \<open>
  Reading the writes in program order, from the mode \<open>m\<close> (\<open>True\<close> is highlighted): a begin
  marker is written in plain mode only and switches to highlighted, an end marker is written in
  highlighted mode only and switches to plain, any other write to the standard error needs
  highlighted mode, a write to the standard output needs plain mode, and there is no other
  descriptor. The result is the mode at the end, or \<open>None\<close> where a write breaks these rules.
\<close>

fun scan :: "bool \<Rightarrow> event list \<Rightarrow> bool option" where
  "scan m [] = Some m"
| "scan m (Write fd bs # es) =
     (if fd = STDERR_FILENO \<and> bs = STDERR_BEGIN_MARKER then (if m then None else scan True es)
      else if fd = STDERR_FILENO \<and> bs = STDERR_END_MARKER then (if m then scan False es else None)
      else if fd = STDERR_FILENO then (if m then scan m es else None)
      else if fd = STDOUT_FILENO then (if m then None else scan m es)
      else None)"
| "scan m (_ # es) = scan m es"

text \<open>
  What a step of the renderer leaves alone: the scripts other than that of \<^verbatim>\<open>write\<close>,
  of which it takes results from the front, and the descriptors closed.
\<close>

definition frame :: "state \<Rightarrow> state \<Rightarrow> bool" where
  "frame s s' \<longleftrightarrow>
     indet s' = indet s \<and> closes s' = closes s \<and> reads s' = reads s \<and> waits s' = waits s \<and>
     set (writes s') \<subseteq> set (writes s) \<and> closed_fds (trace s') = closed_fds (trace s)"

text \<open>
  The writes so far obey the rules of \<open>scan\<close> and end in the mode that \<^verbatim>\<open>in_stderr\<close> holds,
  and no write of the rest of the script fails.
\<close>

definition rendered :: "state \<Rightarrow> bool" where
  "rendered s \<longleftrightarrow> scan False (trace s) = Some (in_stderr s) \<and> no_fail (writes s)"

text \<open>The bytes that a sequence of results of \<^verbatim>\<open>read\<close> delivers, in order.\<close>

fun delivered :: "read_resp list \<Rightarrow> char list" where
  "delivered [] = []"
| "delivered (RdByte b # rs) = b # delivered rs"
| "delivered (_ # rs) = delivered rs"

text \<open>
  The results that the reads of the descriptor \<open>fd\<close> have taken from its script between the
  states \<open>s\<close> and \<open>s'\<close>: scripts are used from the front, so these are the first results of the
  script in \<open>s\<close>, as many as the script in \<open>s'\<close> is shorter.
\<close>

definition taken :: "state \<Rightarrow> state \<Rightarrow> int \<Rightarrow> read_resp list" where
  "taken s s' fd = take (length (reads s fd) - length (reads s' fd)) (reads s fd)"

text \<open>The bytes written to the standard output, in order.\<close>

definition out_bytes :: "event list \<Rightarrow> char list" where
  "out_bytes es = concat (stdout_blocks es)"

text \<open>The bytes written to the standard error that are not a marker, in order.\<close>

fun err_bytes :: "event list \<Rightarrow> char list" where
  "err_bytes [] = []"
| "err_bytes (Write fd bs # es) =
     (if fd = STDERR_FILENO \<and> bs \<noteq> STDERR_BEGIN_MARKER \<and> bs \<noteq> STDERR_END_MARKER
      then bs @ err_bytes es else err_bytes es)"
| "err_bytes (_ # es) = err_bytes es"

text \<open>
  The blocks into which the line buffer cuts a sequence of bytes when no write fails: the
  blocks flushed so far and the content of the buffer. A byte that finds 1024 bytes in the
  buffer has them flushed first; a newline is flushed with the bytes before it.
\<close>

definition line_step :: "char list list \<times> char list \<Rightarrow> char \<Rightarrow> char list list \<times> char list" where
  "line_step st c =
     (let (bl, buf) = (if 1024 \<le> length (snd st) then (fst st @ [snd st], []) else st)
      in if c = CHR 0x0A then (bl @ [buf @ [c]], []) else (bl, buf @ [c]))"

definition lines_of :: "char list \<Rightarrow> char list list \<times> char list" where
  "lines_of cs = foldl line_step ([], []) cs"

text \<open>
  The state \<open>t\<close> of a run that began in \<open>s\<close>, with the read ends \<open>fd0\<close> and \<open>fd1\<close>: the scripts
  of \<^verbatim>\<open>read\<close> have been used from the front, no write of the rest of the script fails, and
  unless a read of the pipe has returned 0, the blocks written to the standard output and the
  content of the line buffer are those of the bytes read from \<open>fd0\<close>, and the bytes written to
  the standard error are the bytes read from \<open>fd1\<close>.
\<close>

definition relayed :: "state \<Rightarrow> int \<Rightarrow> int \<Rightarrow> state \<Rightarrow> bool" where
  "relayed s fd0 fd1 t \<longleftrightarrow>
     reads s fd0 = taken s t fd0 @ reads t fd0 \<and> reads s fd1 = taken s t fd1 @ reads t fd1 \<and>
     line_ok t \<and> no_fail (writes t) \<and>
     (RdEof \<in> set (taken s t fd0) \<or>
      (stdout_blocks (trace t), take (stdout_line_pos t) (stdout_line t)) =
         lines_of (delivered (taken s t fd0))) \<and>
     (RdEof \<in> set (taken s t fd1) \<or> err_bytes (trace t) = delivered (taken s t fd1))"

text \<open>
  Scripts that suffice for a run to return. A \<^verbatim>\<open>write\<close> result that takes a whole line
  at once:
\<close>

fun accepts_all :: "write_resp \<Rightarrow> bool" where
  "accepts_all (WrAccept k) = (1024 \<le> k)"
| "accepts_all (WrErr e) = False"

text \<open>at least \<open>n\<close> such results, and no others, in the script of \<^verbatim>\<open>write\<close>:\<close>

definition wr_ok :: "nat \<Rightarrow> state \<Rightarrow> bool" where
  "wr_ok n s \<longleftrightarrow> n \<le> length (writes s) \<and> list_all accepts_all (writes s)"

text \<open>
  a result of \<^verbatim>\<open>poll\<close> after which the loop is left: a failure, an error flag, or neither
  pipe readable:
\<close>

fun leaves :: "poll_resp \<Rightarrow> bool" where
  "leaves (PollErr e) = True"
| "leaves (PollOk revents0 revents1) =
     (revents0 \<inter> {POLLERR, POLLNVAL} \<noteq> {} \<or> revents1 \<inter> {POLLERR, POLLNVAL} \<noteq> {} \<or>
      revents0 \<inter> {POLLIN, POLLPRI} = {} \<and> revents1 \<inter> {POLLIN, POLLPRI} = {})"

text \<open>a result of \<^verbatim>\<open>poll\<close> that has the standard output, the standard error, read:\<close>

fun out_ready :: "poll_resp \<Rightarrow> bool" where
  "out_ready (PollErr e) = False"
| "out_ready (PollOk revents0 revents1) = (revents0 \<inter> {POLLIN, POLLPRI} \<noteq> {})"

fun err_ready :: "poll_resp \<Rightarrow> bool" where
  "err_ready (PollErr e) = False"
| "err_ready (PollOk revents0 revents1) = (revents1 \<inter> {POLLIN, POLLPRI} \<noteq> {})"

text \<open>
  and scripts that last for the loop over the results \<open>ps\<close> of \<^verbatim>\<open>poll\<close> and the last flush:
  a value for each \<^verbatim>\<open>c\<close> declared, a result other than \<^verbatim>\<open>EINTR\<close> for each \<^verbatim>\<open>read\<close>, four
  writes for each byte of the standard output (two flushes, of a marker and a block each), two
  for each byte of the standard error, two for the last flush.
\<close>

definition enough :: "poll_resp list \<Rightarrow> int \<Rightarrow> int \<Rightarrow> state \<Rightarrow> bool" where
  "enough ps fd0 fd1 s \<longleftrightarrow>
     line_ok s \<and>
     length (filter out_ready ps) + length (filter err_ready ps) \<le> length (indet s) \<and>
     length (filter out_ready ps) \<le> length (reads s fd0) \<and>
     length (filter err_ready ps) \<le> length (reads s fd1) \<and>
     list_all (\<lambda>r. r \<noteq> RdErr EINTR) (reads s fd0) \<and>
     list_all (\<lambda>r. r \<noteq> RdErr EINTR) (reads s fd1) \<and>
     wr_ok (4 * length (filter out_ready ps) + 2 * length (filter err_ready ps) + 2) s"

text \<open>What is seen of a run of \<^verbatim>\<open>parent\<close>: the value returned and the events.\<close>

definition outcome :: "fault + (int \<times> poll_resp list \<times> state) \<Rightarrow> (int \<times> event list) option" where
  "outcome r = (case r of Inl f \<Rightarrow> None | Inr (v, ps, s) \<Rightarrow> Some (v, trace s))"

text \<open>What is seen of the renderer after a sequence of calls: the events and the write position.\<close>

definition seen :: "fault + state \<Rightarrow> (event list \<times> nat) option" where
  "seen r = (case r of Inl f \<Rightarrow> None | Inr s \<Rightarrow> Some (trace s, stdout_line_pos s))"

text \<open>The scripts that a run of \<^verbatim>\<open>parent\<close> has left over: of \<^verbatim>\<open>poll\<close>, of \<^verbatim>\<open>wait\<close>.\<close>

definition leftover ::
  "fault + (int \<times> poll_resp list \<times> state) \<Rightarrow> (poll_resp list \<times> wait_resp list) option" where
  "leftover r = (case r of Inl f \<Rightarrow> None | Inr (v, ps, s) \<Rightarrow> Some (ps, waits s))"

section \<open>Example runs\<close>

text \<open>
  In all of them the pipe of the standard output is (3, 4), the pipe of the standard error is
  (5, 6), both write ends close without error and the child is process 77.
\<close>

text \<open>The summary line of a child that exits with status 0 or 3.\<close>

definition exited_0 :: event where
  "exited_0 = Printf (CHR 0x1B # ''[34mExited with status 0'' @ CHR 0x1B # ''[m'' @ [CHR 0x0A])"

definition exited_3 :: event where
  "exited_3 = Printf (CHR 0x1B # ''[34mExited with status 3'' @ CHR 0x1B # ''[m'' @ [CHR 0x0A])"

text \<open>
  The child writes \<open>a\<close> and a newline to its standard output and \<open>x\<close> to its standard error,
  and exits with status 3; \<open>a\<close> and \<open>x\<close> are ready at the same \<^verbatim>\<open>poll\<close>. The sink takes
  every write at once.
\<close>

definition polls_plain :: "poll_resp list" where
  "polls_plain = [PollOk {POLLIN} {POLLIN}, PollOk {POLLIN} {}, PollOk {POLLHUP} {POLLHUP}]"

definition init_plain :: state where
  "init_plain =
     init_state ''???'' [CloseOk, CloseOk]
       ((\<lambda>fd. [])(3 := [RdByte CHR ''a'', RdByte (CHR 0x0A)], 5 := [RdByte CHR ''x'']))
       (replicate 12 (WrAccept 1024)) [WaitOk 77 768]"

definition run_plain :: "fault + (int \<times> poll_resp list \<times> state)" where
  "run_plain = parent (3, 4) (5, 6) polls_plain init_plain"

text \<open>
  The standard output is reported readable at its end, and the \<^verbatim>\<open>read\<close> returns 0; the
  uninitialised \<^verbatim>\<open>c\<close> holds \<open>?\<close>.
\<close>

definition run_eof :: "fault + (int \<times> poll_resp list \<times> state)" where
  "run_eof =
     parent (3, 4) (5, 6)
       [PollOk {POLLIN, POLLHUP} {POLLHUP}, PollOk {POLLHUP} {POLLHUP}]
       (init_state ''?'' [CloseOk, CloseOk] ((\<lambda>fd. [])(3 := [RdEof]))
          [WrAccept 1] [WaitOk 77 0])"

text \<open>
  The first \<^verbatim>\<open>poll\<close> is interrupted, although the child has written \<open>a\<close>; the
  \<^verbatim>\<open>wait\<close> is interrupted too.
\<close>

definition run_interrupted :: "fault + (int \<times> poll_resp list \<times> state)" where
  "run_interrupted =
     parent (3, 4) (5, 6)
       [PollErr EINTR, PollOk {POLLIN} {}, PollOk {POLLHUP} {POLLHUP}]
       (init_state ''?'' [CloseOk, CloseOk] ((\<lambda>fd. [])(3 := [RdByte CHR ''a'']))
          [WrAccept 1] [WaitErr EINTR, WaitOk 77 0])"

text \<open>
  The child writes \<open>x\<close> and then \<open>y\<close> to its standard error; the write of the begin marker
  fails, the later writes succeed.
\<close>

definition run_write_fails :: "fault + (int \<times> poll_resp list \<times> state)" where
  "run_write_fails =
     parent (3, 4) (5, 6)
       [PollOk {} {POLLIN}, PollOk {} {POLLIN}, PollOk {POLLHUP} {POLLHUP}]
       (init_state ''??'' [CloseOk, CloseOk]
          ((\<lambda>fd. [])(5 := [RdByte CHR ''x'', RdByte CHR ''y'']))
          [WrErr EIO, WrAccept 1, WrAccept 4] [WaitOk 77 0])"

text \<open>The events of \<open>run_plain\<close>.\<close>

definition trace_plain :: "event list" where
  "trace_plain =
     [Close 4, Close 6,
      Write 2 [CHR 0x1B, CHR ''['', CHR ''3'', CHR ''1'', CHR ''m'', CHR 0x00],
      Write 2 ''x'',
      Write 2 [CHR 0x1B, CHR ''['', CHR ''m'', CHR 0x00],
      Write 1 [CHR ''a'', CHR 0x0A],
      Write 1 [],
      exited_3]"

text \<open>
  The child writes \<open>x\<close> to its standard error; the sink is not ready for the begin marker
  (\<^verbatim>\<open>EAGAIN\<close>) and takes the later writes.
\<close>

definition run_marker_lost :: "fault + (int \<times> poll_resp list \<times> state)" where
  "run_marker_lost =
     parent (3, 4) (5, 6)
       [PollOk {} {POLLIN}, PollOk {POLLHUP} {POLLHUP}]
       (init_state ''?'' [CloseOk, CloseOk] ((\<lambda>fd. [])(5 := [RdByte CHR ''x'']))
          [WrErr EAGAIN, WrAccept 4] [WaitOk 77 0])"

definition trace_marker_lost :: "event list" where
  "trace_marker_lost =
     [Close 4, Close 6, Write 2 [], Perror ''write()'',
      Write 2 [CHR 0x1B, CHR ''['', CHR ''m'', CHR 0x00], Write 1 [], exited_0]"

text \<open>
  The child writes 1024 times \<open>a\<close> to its standard output, then \<open>x\<close> to its standard error,
  and exits with status 0. The sink takes every write at once.
\<close>

definition polls_full :: "poll_resp list" where
  "polls_full =
     replicate 1024 (PollOk {POLLIN} {}) @ [PollOk {} {POLLIN}, PollOk {POLLHUP} {POLLHUP}]"

definition init_full :: state where
  "init_full =
     init_state (replicate 1024 CHR ''?'' @ ''?'') [CloseOk, CloseOk]
       ((\<lambda>fd. [])(3 := map RdByte (replicate 1024 CHR ''a''), 5 := [RdByte CHR ''x'']))
       (replicate 4100 (WrAccept 1024)) [WaitOk 77 0]"

definition run_full :: "fault + (int \<times> poll_resp list \<times> state)" where
  "run_full = parent (3, 4) (5, 6) polls_full init_full"

definition trace_full :: "event list" where
  "trace_full =
     [Close 4, Close 6,
      Write 2 [CHR 0x1B, CHR ''['', CHR ''3'', CHR ''1'', CHR ''m'', CHR 0x00],
      Write 2 ''x'',
      Write 2 [CHR 0x1B, CHR ''['', CHR ''m'', CHR 0x00],
      Write 1 (replicate 1024 CHR ''a''),
      exited_0]"

text \<open>A state in which the line buffer is full, with a sink that takes the whole line at once.\<close>

definition full_line :: state where
  "full_line = (init_state [] [] (\<lambda>fd. []) [WrAccept 1024] [])\<lparr>stdout_line_pos := 1024\<rparr>"

section \<open>Auxiliary facts\<close>

subsection \<open>The write loop\<close>

lemma write_nointr_bound:
  "write_nointr ws n = Inr (r, ws') \<Longrightarrow> r = - 1 \<or> (0 \<le> r \<and> nat r \<le> n)"
  by (induction ws n rule: write_nointr.induct) (auto split: if_splits)

lemma write_nointr_rest:
  "write_nointr ws n = Inr (r, ws') \<Longrightarrow> set ws' \<subseteq> set ws"
  by (induction ws n rule: write_nointr.induct) (auto split: if_splits)

lemma write_nointr_no_fail:
  "write_nointr ws n = Inr (r, ws') \<Longrightarrow> no_fail ws \<Longrightarrow> r \<noteq> - 1"
  by (induction ws n rule: write_nointr.induct) (auto simp: no_fail_def split: if_splits)

lemma write_all_loop_result:
  "write_all_loop ws n m = Inr (rc, k, ws') \<Longrightarrow> m \<le> n \<Longrightarrow>
     set ws' \<subseteq> set ws \<and> ((rc = 0 \<and> k = n) \<or> (rc = - 1 \<and> m \<le> k \<and> k < n \<and> \<not> no_fail ws))"
proof (induction ws n m rule: write_all_loop.induct)
  case (1 ws nbyte numwritten)
  show ?case
  proof (cases "numwritten < nbyte")
    case False
    with "1.prems" show ?thesis by (simp add: write_all_loop.simps)
  next
    case True
    show ?thesis
    proof (cases "write_nointr ws (nbyte - numwritten)")
      case (Inl f)
      with True "1.prems" show ?thesis by (simp add: write_all_loop.simps)
    next
      case (Inr p)
      obtain r ws1 where p: "p = (r, ws1)" by (cases p)
      note w = Inr [unfolded p]
      show ?thesis
      proof (cases "r = - 1")
        case True
        with \<open>numwritten < nbyte\<close> w "1.prems" write_nointr_rest [OF w] write_nointr_no_fail [OF w]
        show ?thesis by (auto simp: write_all_loop.simps)
      next
        case False
        have bound: "numwritten + nat r \<le> nbyte"
          using write_nointr_bound [OF w] False True by auto
        have "write_all_loop ws1 nbyte (numwritten + nat r) = Inr (rc, k, ws')"
          using "1.prems"(1) True w False by (simp add: write_all_loop.simps)
        from "1.IH" [OF True w refl False this bound] write_nointr_rest [OF w]
        show ?thesis by (auto simp: no_fail_def list_all_iff)
      qed
    qed
  qed
qed

lemma write_all_nointr_result:
  assumes "write_all_nointr fd buf n s = Inr (rc, s')"
  shows "\<exists>ws' k. set ws' \<subseteq> set (writes s) \<and>
           ((rc = 0 \<and> s' = emit (Write fd (take n buf)) (s\<lparr>writes := ws'\<rparr>)) \<or>
            (rc = - 1 \<and> k < n \<and> \<not> no_fail (writes s) \<and>
             s' = emit (Perror ''write()'') (emit (Write fd (take k buf)) (s\<lparr>writes := ws'\<rparr>))))"
proof (cases "write_all_loop (writes s) n 0")
  case (Inl f)
  with assms show ?thesis by (simp add: write_all_nointr_def)
next
  case (Inr p)
  obtain r k ws' where p: "p = (r, k, ws')" by (cases p)
  from write_all_loop_result [OF Inr [unfolded p]]
  have "set ws' \<subseteq> set (writes s)" and "(r = 0 \<and> k = n) \<or> (r = - 1 \<and> k < n \<and> \<not> no_fail (writes s))"
    by auto
  with assms Inr p show ?thesis
    by (auto simp: write_all_nointr_def Let_def split: if_splits)
qed


lemma write_nointr_fault: "write_nointr ws n = Inl f \<Longrightarrow> f = Exhausted"
  by (induction ws n rule: write_nointr.induct) (auto split: if_splits)

lemma write_all_loop_fault: "write_all_loop ws n m = Inl f \<Longrightarrow> f = Exhausted"
proof (induction ws n m rule: write_all_loop.induct)
  case (1 ws nbyte numwritten)
  then show ?case
    by (subst (asm) (2) write_all_loop.simps)
       (auto split: if_splits sum.splits dest: write_nointr_fault)
qed

lemma write_all_nointr_fault: "write_all_nointr fd buf n s = Inl f \<Longrightarrow> f = Exhausted"
  by (auto simp: write_all_nointr_def Let_def split: sum.splits if_splits dest: write_all_loop_fault)

subsection \<open>What the renderer leaves alone\<close>

lemma closed_fds_append [simp]: "closed_fds (xs @ ys) = closed_fds xs @ closed_fds ys"
  by (induction xs rule: closed_fds.induct) auto

lemma frame_refl [simp]: "frame s s"
  by (simp add: frame_def)

lemma frame_trans: "frame s s1 \<Longrightarrow> frame s1 s2 \<Longrightarrow> frame s s2"
  by (auto simp: frame_def)

lemma write_all_nointr_frame:
  assumes "write_all_nointr fd buf n s = Inr (rc, s')"
  shows "frame s s' \<and> in_stderr s' = in_stderr s \<and> stdout_line s' = stdout_line s \<and>
         stdout_line_pos s' = stdout_line_pos s"
  using write_all_nointr_result [OF assms] by (auto simp: frame_def emit_def)

lemma set_stderr_frame:
  assumes "set_stderr b s = Inr (rc, s')"
  shows "frame s s' \<and> in_stderr s' = b \<and> stdout_line s' = stdout_line s \<and>
         stdout_line_pos s' = stdout_line_pos s"
proof (cases "b = in_stderr s")
  case True
  with assms show ?thesis by (simp add: set_stderr_def)
next
  case False
  with assms have "write_all_nointr STDERR_FILENO
      (if b then STDERR_BEGIN_MARKER else STDERR_END_MARKER)
      (sizeof (if b then STDERR_BEGIN_MARKER else STDERR_END_MARKER)) (s\<lparr>in_stderr := b\<rparr>) = Inr (rc, s')"
    by (auto simp: set_stderr_def Let_def split: if_splits)
  from write_all_nointr_frame [OF this] show ?thesis
    by (simp add: frame_def)
qed

lemma flush_stdout_line_frame:
  assumes "flush_stdout_line s = Inr (rc, s')"
  shows "frame s s' \<and> in_stderr s' = False \<and> stdout_line s' = stdout_line s \<and>
         (if rc = 0 then stdout_line_pos s' = 0
          else rc = 1 \<and> stdout_line_pos s' = stdout_line_pos s)"
proof -
  from assms obtain r1 s1 where s1: "set_stderr False s = Inr (r1, s1)"
    by (auto simp: flush_stdout_line_def split: sum.splits)
  note f1 = set_stderr_frame [OF s1]
  show ?thesis
  proof (cases "r1 = 0")
    case False
    with assms s1 f1 show ?thesis by (auto simp: flush_stdout_line_def)
  next
    case True
    with assms s1 obtain r2 s2 where
      s2: "write_all_nointr STDOUT_FILENO (stdout_line s1) (stdout_line_pos s1) s1 = Inr (r2, s2)"
      by (auto simp: flush_stdout_line_def split: sum.splits)
    note f2 = write_all_nointr_frame [OF s2]
    from assms s1 True s2 have "s' = (if r2 \<noteq> 0 then s2 else s2\<lparr>stdout_line_pos := 0\<rparr>)"
      and "rc = (if r2 \<noteq> 0 then 1 else 0)"
      by (auto simp: flush_stdout_line_def split: if_splits)
    with f1 f2 show ?thesis by (auto simp: frame_def)
  qed
qed

lemma flush_stdout_line_fault: "flush_stdout_line s = Inl f \<Longrightarrow> f = Exhausted"
  by (auto simp: flush_stdout_line_def set_stderr_def Let_def
      split: sum.splits if_splits dest: write_all_nointr_fault)

lemma stderr_putc_frame:
  assumes "stderr_putc c s = Inr (rc, s')"
  shows "frame s s' \<and> in_stderr s' = True \<and> stdout_line s' = stdout_line s \<and>
         stdout_line_pos s' = stdout_line_pos s"
proof -
  from assms obtain r1 s1 where s1: "set_stderr True s = Inr (r1, s1)"
    by (auto simp: stderr_putc_def split: sum.splits)
  note f1 = set_stderr_frame [OF s1]
  show ?thesis
  proof (cases "r1 = 0")
    case False
    with assms s1 f1 show ?thesis by (auto simp: stderr_putc_def)
  next
    case True
    with assms s1 obtain r2 s2 where
      s2: "write_all_nointr STDERR_FILENO [c] 1 s1 = Inr (r2, s2)" and "s' = s2"
      by (auto simp: stderr_putc_def split: sum.splits if_splits)
    with f1 write_all_nointr_frame [OF s2] show ?thesis by (auto simp: frame_def)
  qed
qed

lemma stderr_putc_fault: "stderr_putc c s = Inl f \<Longrightarrow> f = Exhausted"
  by (auto simp: stderr_putc_def set_stderr_def Let_def
      split: sum.splits if_splits dest: write_all_nointr_fault)


lemma stdout_putc_safe:
  assumes ok: "line_ok s"
  shows "stdout_putc c s \<noteq> Inl OutOfBounds"
    and "stdout_putc c s = Inr (rc, s') \<Longrightarrow> line_ok s' \<and> frame s s'"
proof -
  define pre where "pre = (if stdout_line_pos s \<ge> sizeof (stdout_line s) then flush_stdout_line s
            else Inr (0, s))"
  define store where "store s1 = s1\<lparr>stdout_line := (stdout_line s1)[stdout_line_pos s1 := c],
                        stdout_line_pos := stdout_line_pos s1 + 1\<rparr>" for s1 :: state
  have eq: "stdout_putc c s =
     (case pre of
        Inl f \<Rightarrow> Inl f
      | Inr (rc, s1) \<Rightarrow>
          if rc \<noteq> 0 then Inr (1, s1)
          else if \<not> stdout_line_pos s1 < sizeof (stdout_line s1) then Inl OutOfBounds
          else
            if c = CHR 0x0A
               then (case flush_stdout_line (store s1) of
                       Inl f \<Rightarrow> Inl f
                     | Inr (rc', s3) \<Rightarrow> if rc' \<noteq> 0 then Inr (1, s3) else Inr (0, s3))
               else Inr (0, store s1))"
    by (simp only: stdout_putc_def pre_def store_def Let_def)
  have both: "stdout_putc c s \<noteq> Inl OutOfBounds \<and>
      (stdout_putc c s = Inr (rc, s') \<longrightarrow> line_ok s' \<and> frame s s')"
  proof (cases pre)
    case (Inl f)
    then have "f = Exhausted"
      by (auto simp: pre_def split: if_splits dest: flush_stdout_line_fault)
    with Inl show ?thesis by (simp add: eq)
  next
    case (Inr p)
    obtain r s1 where p: "p = (r, s1)" by (cases p)
    have s1: "frame s s1" "stdout_line s1 = stdout_line s"
      "if r = 0 then stdout_line_pos s1 < 1024 else stdout_line_pos s1 = stdout_line_pos s"
      using Inr p ok flush_stdout_line_frame [of s r s1]
      by (auto simp: pre_def line_ok_def split: if_splits)
    show ?thesis
    proof (cases "r = 0")
      case False
      with Inr p s1 ok show ?thesis
        by (auto simp: eq line_ok_def)
    next
      case True
      have s2: "line_ok (store s1)" "frame s (store s1)"
        using s1 True ok by (auto simp: store_def line_ok_def sizeof_def frame_def)
      have inb: "stdout_line_pos s1 < sizeof (stdout_line s1)"
        using s1 True ok by (simp add: line_ok_def)
      show ?thesis
      proof (cases "c = CHR 0x0A")
        case False
        with Inr p True inb s2 show ?thesis
          by (auto simp: eq)
      next
        case nl: True
        show ?thesis
        proof (cases "flush_stdout_line (store s1)")
          case (Inl f)
          then have "f = Exhausted" by (rule flush_stdout_line_fault)
          with Inl Inr p True inb nl show ?thesis
            unfolding eq by simp
        next
          case f: (Inr q)
          obtain r3 s3 where q: "q = (r3, s3)" by (cases q)
          from flush_stdout_line_frame [OF f [unfolded q]] s2
          have "line_ok s3" "frame s s3"
            by (auto simp: line_ok_def split: if_splits intro: frame_trans)
          with f q Inr p True inb nl show ?thesis
            unfolding eq by auto
        qed
      qed
    qed
  qed
  from both show "stdout_putc c s \<noteq> Inl OutOfBounds" by simp
  from both show "stdout_putc c s = Inr (rc, s') \<Longrightarrow> line_ok s' \<and> frame s s'" by simp
qed

lemma stdout_putcs_safe:
  "line_ok s \<Longrightarrow> stdout_putcs cs s \<noteq> Inl OutOfBounds \<and>
     (\<forall>s'. stdout_putcs cs s = Inr s' \<longrightarrow> line_ok s')"
proof (induction cs arbitrary: s)
  case Nil
  then show ?case by simp
next
  case (Cons c cs)
  show ?case
  proof (cases "stdout_putc c s")
    case (Inl f)
    with stdout_putc_safe(1) [OF Cons.prems, of c] show ?thesis by auto
  next
    case (Inr p)
    obtain r s1 where p: "p = (r, s1)" by (cases p)
    from stdout_putc_safe(2) [OF Cons.prems Inr [unfolded p]] have "line_ok s1" by simp
    from Cons.IH [OF this] Inr p show ?thesis by simp
  qed
qed


lemma stdout_putc_stores:
  assumes ok: "line_ok s" and r: "stdout_putc c s = Inr (0, s')"
  shows "stdout_line s' = (stdout_line s)[(if stdout_line_pos s < 1024 then stdout_line_pos s else 0) := c] \<and>
         stdout_line_pos s' = (if c = CHR 0x0A then 0
            else (if stdout_line_pos s < 1024 then stdout_line_pos s else 0) + 1)"
proof -
  define pre where "pre = (if stdout_line_pos s \<ge> sizeof (stdout_line s) then flush_stdout_line s
            else Inr (0, s))"
  define store where "store s1 = s1\<lparr>stdout_line := (stdout_line s1)[stdout_line_pos s1 := c],
                        stdout_line_pos := stdout_line_pos s1 + 1\<rparr>" for s1 :: state
  have eq: "stdout_putc c s =
     (case pre of
        Inl f \<Rightarrow> Inl f
      | Inr (rc, s1) \<Rightarrow>
          if rc \<noteq> 0 then Inr (1, s1)
          else if \<not> stdout_line_pos s1 < sizeof (stdout_line s1) then Inl OutOfBounds
          else
            if c = CHR 0x0A
               then (case flush_stdout_line (store s1) of
                       Inl f \<Rightarrow> Inl f
                     | Inr (rc', s3) \<Rightarrow> if rc' \<noteq> 0 then Inr (1, s3) else Inr (0, s3))
               else Inr (0, store s1))"
    by (simp only: stdout_putc_def pre_def store_def Let_def)
  from r obtain s1 where pre: "pre = Inr (0, s1)"
    and rest: "(if c = CHR 0x0A
               then (case flush_stdout_line (store s1) of
                       Inl f \<Rightarrow> Inl f
                     | Inr (rc', s3) \<Rightarrow> if rc' \<noteq> 0 then Inr (1, s3) else Inr (0, s3))
               else Inr (0, store s1)) = (Inr (0, s') :: fault + (int \<times> state))"
    unfolding eq by (auto split: sum.splits if_splits)
  have s1: "stdout_line s1 = stdout_line s"
    "stdout_line_pos s1 = (if stdout_line_pos s < 1024 then stdout_line_pos s else 0)"
    using pre ok flush_stdout_line_frame [of s 0 s1]
    by (auto simp: pre_def line_ok_def split: if_splits)
  show ?thesis
  proof (cases "c = CHR 0x0A")
    case False
    with rest s1 show ?thesis by (auto simp: store_def)
  next
    case True
    with rest have "flush_stdout_line (store s1) = Inr (0, s')"
      by (cases "flush_stdout_line (store s1)") (auto split: if_splits)
    from flush_stdout_line_frame [OF this] s1 True show ?thesis
      by (auto simp: store_def)
  qed
qed

subsection \<open>Invariants of the renderer\<close>

text \<open>
  A property of the state that holds before \<^verbatim>\<open>stdout_putc\<close> holds after, if a flush keeps it
  and it does not depend on the line buffer.
\<close>

lemma stdout_putc_invariant:
  assumes run: "stdout_putc c s = Inr (rc, s')" and P: "P s"
    and flush: "\<And>t r t'. P t \<Longrightarrow> flush_stdout_line t = Inr (r, t') \<Longrightarrow> P t'"
    and store: "\<And>t l p. P t \<Longrightarrow> P (t\<lparr>stdout_line := l, stdout_line_pos := p\<rparr>)"
  shows "P s'"
proof -
  define pre where "pre = (if stdout_line_pos s \<ge> sizeof (stdout_line s) then flush_stdout_line s
            else Inr (0, s))"
  define put where "put s1 = s1\<lparr>stdout_line := (stdout_line s1)[stdout_line_pos s1 := c],
                        stdout_line_pos := stdout_line_pos s1 + 1\<rparr>" for s1 :: state
  have eq: "stdout_putc c s =
     (case pre of
        Inl f \<Rightarrow> Inl f
      | Inr (rc, s1) \<Rightarrow>
          if rc \<noteq> 0 then Inr (1, s1)
          else if \<not> stdout_line_pos s1 < sizeof (stdout_line s1) then Inl OutOfBounds
          else
            if c = CHR 0x0A
               then (case flush_stdout_line (put s1) of
                       Inl f \<Rightarrow> Inl f
                     | Inr (rc', s3) \<Rightarrow> if rc' \<noteq> 0 then Inr (1, s3) else Inr (0, s3))
               else Inr (0, put s1))"
    by (simp only: stdout_putc_def pre_def put_def Let_def)
  from run obtain r s1 where pre: "pre = Inr (r, s1)"
    unfolding eq by (cases pre) auto
  have P1: "P s1"
    using pre P flush [of s r s1] by (auto simp: pre_def split: if_splits)
  have P2: "P (put s1)"
    unfolding put_def by (rule store [OF P1])
  show ?thesis
  proof (cases "r = 0")
    case False
    with run pre P1 show ?thesis unfolding eq by auto
  next
    case True
    show ?thesis
    proof (cases "c = CHR 0x0A")
      case False
      with run pre True P2 show ?thesis unfolding eq by (auto split: if_splits)
    next
      case nl: True
      with run pre True obtain r3 where "flush_stdout_line (put s1) = Inr (r3, s')"
        unfolding eq by (cases "flush_stdout_line (put s1)") (auto split: if_splits)
      from flush [OF P2 this] show ?thesis .
    qed
  qed
qed

lemma stdout_putc_plain:
  assumes "stdout_line_pos s < sizeof (stdout_line s)" and "c \<noteq> CHR 0x0A"
  shows "stdout_putc c s =
           Inr (0, s\<lparr>stdout_line := (stdout_line s)[stdout_line_pos s := c],
                     stdout_line_pos := stdout_line_pos s + 1\<rparr>)"
  using assms by (simp add: stdout_putc_def Let_def)

subsection \<open>When no write fails\<close>

lemma write_all_nointr_no_fail:
  assumes "write_all_nointr fd buf n s = Inr (rc, s')" and "no_fail (writes s)"
  shows "rc = 0 \<and> no_fail (writes s') \<and> trace s' = trace s @ [Write fd (take n buf)]"
  using write_all_nointr_result [OF assms(1)] assms(2)
  by (auto simp: emit_def no_fail_def list_all_iff)

lemma set_stderr_no_fail:
  assumes "set_stderr b s = Inr (rc, s')" and "no_fail (writes s)"
  shows "rc = 0 \<and> no_fail (writes s') \<and>
         trace s' = trace s @
           (if in_stderr s = b then []
            else [Write STDERR_FILENO (if b then STDERR_BEGIN_MARKER else STDERR_END_MARKER)])"
proof (cases "b = in_stderr s")
  case True
  with assms show ?thesis by (simp add: set_stderr_def)
next
  case False
  with assms(1) have "write_all_nointr STDERR_FILENO
      (if b then STDERR_BEGIN_MARKER else STDERR_END_MARKER)
      (sizeof (if b then STDERR_BEGIN_MARKER else STDERR_END_MARKER)) (s\<lparr>in_stderr := b\<rparr>) = Inr (rc, s')"
    by (auto simp: set_stderr_def Let_def split: if_splits)
  from write_all_nointr_no_fail [OF this] assms(2) False show ?thesis
    by (auto simp: sizeof_def)
qed

lemma flush_stdout_line_no_fail:
  assumes "flush_stdout_line s = Inr (rc, s')" and "no_fail (writes s)"
  shows "rc = 0 \<and> no_fail (writes s') \<and>
         trace s' = trace s @
           (if in_stderr s then [Write STDERR_FILENO STDERR_END_MARKER] else []) @
           [Write STDOUT_FILENO (take (stdout_line_pos s) (stdout_line s))]"
proof -
  from assms(1) obtain r1 s1 where s1: "set_stderr False s = Inr (r1, s1)"
    by (auto simp: flush_stdout_line_def split: sum.splits)
  note n1 = set_stderr_no_fail [OF s1 assms(2)] and f1 = set_stderr_frame [OF s1]
  with assms(1) s1 obtain r2 s2 where
    s2: "write_all_nointr STDOUT_FILENO (stdout_line s1) (stdout_line_pos s1) s1 = Inr (r2, s2)"
    by (auto simp: flush_stdout_line_def split: sum.splits)
  from n1 have "no_fail (writes s1)" by simp
  note n2 = write_all_nointr_no_fail [OF s2 this]
  from assms(1) s1 s2 n1 n2 have "s' = s2\<lparr>stdout_line_pos := 0\<rparr>" "rc = 0"
    by (auto simp: flush_stdout_line_def)
  with n1 n2 f1 show ?thesis by auto
qed

lemma stderr_putc_no_fail:
  assumes "stderr_putc c s = Inr (rc, s')" and "no_fail (writes s)"
  shows "rc = 0 \<and> no_fail (writes s') \<and>
         trace s' = trace s @
           (if in_stderr s then [] else [Write STDERR_FILENO STDERR_BEGIN_MARKER]) @
           [Write STDERR_FILENO [c]]"
proof -
  from assms(1) obtain r1 s1 where s1: "set_stderr True s = Inr (r1, s1)"
    by (auto simp: stderr_putc_def split: sum.splits)
  note n1 = set_stderr_no_fail [OF s1 assms(2)]
  with assms(1) s1 obtain r2 where
    s2: "write_all_nointr STDERR_FILENO [c] 1 s1 = Inr (r2, s')"
    by (auto simp: stderr_putc_def split: sum.splits if_splits)
  from n1 have "no_fail (writes s1)" by simp
  note n2 = write_all_nointr_no_fail [OF s2 this]
  from assms(1) s1 s2 n1 n2 have "rc = 0"
    by (auto simp: stderr_putc_def)
  with n1 n2 show ?thesis by auto
qed

subsection \<open>Reading the writes\<close>

lemma scan_append:
  "scan m (xs @ ys) = (case scan m xs of None \<Rightarrow> None | Some m' \<Rightarrow> scan m' ys)"
  by (induction m xs rule: scan.induct) auto

lemma marker_facts:
  "STDERR_BEGIN_MARKER \<noteq> STDERR_END_MARKER" "STDERR_END_MARKER \<noteq> STDERR_BEGIN_MARKER"
  "[c] \<noteq> STDERR_BEGIN_MARKER" "[c] \<noteq> STDERR_END_MARKER"
  "STDOUT_FILENO \<noteq> STDERR_FILENO" "STDERR_FILENO \<noteq> STDOUT_FILENO"
  by (simp_all add: STDERR_BEGIN_MARKER_def STDERR_END_MARKER_def c_string_def
      STDOUT_FILENO_def STDERR_FILENO_def)

lemma flush_stdout_line_rendered:
  assumes "rendered s" and "flush_stdout_line s = Inr (rc, s')"
  shows "rendered s' \<and> \<not> in_stderr s'"
  using flush_stdout_line_no_fail [OF assms(2)] flush_stdout_line_frame [OF assms(2)] assms(1)
  by (auto simp: rendered_def scan_append marker_facts)

lemma stderr_putc_rendered:
  assumes "rendered s" and "stderr_putc c s = Inr (rc, s')"
  shows "rendered s'"
  using stderr_putc_no_fail [OF assms(2)] stderr_putc_frame [OF assms(2)] assms(1)
  by (auto simp: rendered_def scan_append marker_facts)

lemma stdout_putc_rendered:
  assumes "rendered s" and "stdout_putc c s = Inr (rc, s')"
  shows "rendered s'"
proof (rule stdout_putc_invariant [OF assms(2), where P = rendered, OF assms(1)])
  show "rendered t'" if "rendered t" "flush_stdout_line t = Inr (r, t')" for t r t'
    using flush_stdout_line_rendered [OF that] by simp
  show "rendered (t\<lparr>stdout_line := l, stdout_line_pos := p\<rparr>)" if "rendered t" for t l p
    using that by (simp add: rendered_def)
qed

subsection \<open>Invariants of the multiplexer\<close>

lemma read_nointr_state:
  "read_nointr fd c s = Inr (r, s') \<Longrightarrow> \<exists>rs. s' = s\<lparr>reads := rs\<rparr>"
  by (auto simp: read_nointr_def split: sum.splits)

lemma pump_stdout_invariant:
  assumes run: "pump_stdout fd s = Inr (b, s')" and P: "P s"
    and env: "\<And>t js rs. P t \<Longrightarrow> P (t\<lparr>indet := js, reads := rs\<rparr>)"
    and msg: "\<And>t m. P t \<Longrightarrow> P (emit (Perror m) t)"
    and putc: "\<And>t c r t'. P t \<Longrightarrow> stdout_putc c t = Inr (r, t') \<Longrightarrow> P t'"
  shows "P s'"
proof -
  from run obtain c0 js where i: "indet s = c0 # js"
    by (cases "indet s") (auto simp: pump_stdout_def)
  with run obtain rc c s1 where r: "read_nointr fd c0 (s\<lparr>indet := js\<rparr>) = Inr ((rc, c), s1)"
    by (cases "read_nointr fd c0 (s\<lparr>indet := js\<rparr>)") (auto simp: pump_stdout_def)
  from read_nointr_state [OF r] env [OF P, where js = js] have P1: "P s1" by auto
  show ?thesis
  proof (cases "rc = - 1")
    case True
    with run i r msg [OF P1] show ?thesis by (auto simp: pump_stdout_def)
  next
    case False
    with run i r obtain r2 where "stdout_putc c s1 = Inr (r2, s')"
      by (cases "stdout_putc c s1") (auto simp: pump_stdout_def)
    from putc [OF P1 this] show ?thesis .
  qed
qed

lemma pump_stderr_invariant:
  assumes run: "pump_stderr fd s = Inr (b, s')" and P: "P s"
    and env: "\<And>t js rs. P t \<Longrightarrow> P (t\<lparr>indet := js, reads := rs\<rparr>)"
    and msg: "\<And>t m. P t \<Longrightarrow> P (emit (Perror m) t)"
    and putc: "\<And>t c r t'. P t \<Longrightarrow> stderr_putc c t = Inr (r, t') \<Longrightarrow> P t'"
  shows "P s'"
proof -
  from run obtain c0 js where i: "indet s = c0 # js"
    by (cases "indet s") (auto simp: pump_stderr_def)
  with run obtain rc c s1 where r: "read_nointr fd c0 (s\<lparr>indet := js\<rparr>) = Inr ((rc, c), s1)"
    by (cases "read_nointr fd c0 (s\<lparr>indet := js\<rparr>)") (auto simp: pump_stderr_def)
  from read_nointr_state [OF r] env [OF P, where js = js] have P1: "P s1" by auto
  show ?thesis
  proof (cases "rc = - 1")
    case True
    with run i r msg [OF P1] show ?thesis by (auto simp: pump_stderr_def)
  next
    case False
    with run i r obtain r2 where "stderr_putc c s1 = Inr (r2, s')"
      by (cases "stderr_putc c s1") (auto simp: pump_stderr_def)
    from putc [OF P1 this] show ?thesis .
  qed
qed

lemma iteration_invariant:
  assumes run: "iteration fd0 fd1 p s = Inr (c, s')" and P: "P s"
    and out: "\<And>t b t'. P t \<Longrightarrow> pump_stdout fd0 t = Inr (b, t') \<Longrightarrow> P t'"
    and err: "\<And>t b t'. P t \<Longrightarrow> pump_stderr fd1 t = Inr (b, t') \<Longrightarrow> P t'"
    and msg: "\<And>t m. P t \<Longrightarrow> P (emit (Perror m) t) \<and> P (emit (Eprintf m) t)"
  shows "P s'"
proof (cases p)
  case (PollErr e)
  with run msg [OF P] show ?thesis by (auto simp: iteration_def)
next
  case (PollOk r0 r1)
  define bad where "bad \<longleftrightarrow> r0 \<inter> {POLLERR, POLLNVAL} \<noteq> {} \<or> r1 \<inter> {POLLERR, POLLNVAL} \<noteq> {}"
  define first where "first = (if r0 \<inter> {POLLIN, POLLPRI} \<noteq> {} then pump_stdout fd0 s
                   else Inr (True, s))"
  define second where "second s1 = (if r1 \<inter> {POLLIN, POLLPRI} \<noteq> {} then pump_stderr fd1 s1
                          else Inr (True, s1))" for s1
  have eq: "iteration fd0 fd1 p s =
     (if bad then Inr (Leave, emit (Eprintf (''stream error'' @ [CHR 0x0A])) s)
      else
        (case first of
           Inl f \<Rightarrow> Inl f
         | Inr (go0, s1) \<Rightarrow>
             if \<not> go0 then Inr (Leave, s1)
             else
               (case second s1 of
                  Inl f \<Rightarrow> Inl f
                | Inr (go1, s2) \<Rightarrow>
                    if \<not> go1 then Inr (Leave, s2)
                    else
                      if \<not> r0 \<inter> {POLLIN, POLLPRI} \<noteq> {} \<and> \<not> r1 \<inter> {POLLIN, POLLPRI} \<noteq> {}
                      then Inr (Leave, s2)
                      else Inr (Again, s2))))"
    unfolding PollOk by (simp only: iteration_def bad_def first_def second_def Let_def poll_resp.case)
  show ?thesis
  proof (cases bad)
    case True
    with run msg [OF P] show ?thesis unfolding eq by auto
  next
    case False
    with run obtain go0 s1 where f: "first = Inr (go0, s1)"
      unfolding eq by (cases first) auto
    have P1: "P s1"
      using f P out [OF P, of go0 s1] by (auto simp: first_def split: if_splits)
    show ?thesis
    proof (cases go0)
      case go0: False
      with run False f P1 show ?thesis unfolding eq by auto
    next
      case True
      with run False f obtain go1 s2 where g: "second s1 = Inr (go1, s2)"
        unfolding eq by (cases "second s1") auto
      have P2: "P s2"
        using g P1 err [OF P1, of go1 s2] by (auto simp: second_def split: if_splits)
      from run False f True g have "s' = s2"
        unfolding eq by (auto split: if_splits)
      with P2 show ?thesis by simp
    qed
  qed
qed

lemma parent_loop_invariant:
  assumes run: "parent_loop fd0 fd1 ps s = Inr (ps', s')" and P: "P s"
    and it: "\<And>t p c t'. P t \<Longrightarrow> iteration fd0 fd1 p t = Inr (c, t') \<Longrightarrow> P t'"
  shows "P s'"
  using run P
proof (induction ps arbitrary: s)
  case Nil
  then show ?case by simp
next
  case (Cons p ps)
  from Cons.prems(1) obtain c s1 where i: "iteration fd0 fd1 p s = Inr (c, s1)"
    by (cases "iteration fd0 fd1 p s") auto
  from it [OF Cons.prems(2) i] have P1: "P s1" .
  show ?case
  proof (cases c)
    case Leave
    with Cons.prems(1) i P1 show ?thesis by simp
  next
    case Again
    with Cons.prems(1) i have "parent_loop fd0 fd1 ps s1 = Inr (ps', s')" by simp
    from Cons.IH [OF this P1] show ?thesis .
  qed
qed

text \<open>
  A property kept by the steps of the renderer and by the bookkeeping of the loop holds
  when the loop is left.
\<close>

lemma multiplexing_invariant:
  assumes run: "parent_loop fd0 fd1 ps s = Inr (ps', s')" and P: "P s"
    and env: "\<And>t js rs. P t \<Longrightarrow> P (t\<lparr>indet := js, reads := rs\<rparr>)"
    and msg: "\<And>t m. P t \<Longrightarrow> P (emit (Perror m) t) \<and> P (emit (Eprintf m) t)"
    and flush: "\<And>t r t'. P t \<Longrightarrow> flush_stdout_line t = Inr (r, t') \<Longrightarrow> P t'"
    and store: "\<And>t l p. P t \<Longrightarrow> P (t\<lparr>stdout_line := l, stdout_line_pos := p\<rparr>)"
    and err: "\<And>t c r t'. P t \<Longrightarrow> stderr_putc c t = Inr (r, t') \<Longrightarrow> P t'"
  shows "P s'"
proof (rule parent_loop_invariant [OF run, where P = P, OF P])
  fix t p c t'
  assume t: "P t" and i: "iteration fd0 fd1 p t = Inr (c, t')"
  have msg1: "P (emit (Perror m) u)" if "P u" for u m
    using msg [OF that] by simp
  have putc: "P u'" if "P u" "stdout_putc x u = Inr (r, u')" for u x r u'
    by (rule stdout_putc_invariant [OF that(2), where P = P, OF that(1)])
       (erule (1) flush, erule store)
  show "P t'"
  proof (rule iteration_invariant [OF i, where P = P, OF t])
    show "P u'" if "P u" "pump_stdout fd0 u = Inr (b, u')" for u b u'
      by (rule pump_stdout_invariant [OF that(2), where P = P, OF that(1)])
         (erule env, erule msg1, erule (1) putc)
    show "P u'" if "P u" "pump_stderr fd1 u = Inr (b, u')" for u b u'
      by (rule pump_stderr_invariant [OF that(2), where P = P, OF that(1)])
         (erule env, erule msg1, erule (1) err)
    show "P (emit (Perror m) u) \<and> P (emit (Eprintf m) u)" if "P u" for u m
      using msg [OF that] .
  qed
qed

subsection \<open>The reaper\<close>

lemma close_fd_result:
  "close_fd fd s = Inr (rc, s') \<Longrightarrow> \<exists>cs. s' = emit (Close fd) (s\<lparr>closes := cs\<rparr>)"
  by (auto simp: close_fd_def split: list.splits close_resp.splits)

lemma report_result:
  "\<exists>v m. report status wpid s = (Some v, emit (Printf m) s) \<or>
          report status wpid s = (Some v, emit (Eprintf m) s)"
  by (auto simp: report_def split: option.splits)

lemma reap_child_result:
  assumes "reap_child fd0 fd1 s = Inr (v, s')"
  shows "\<exists>r s1. flush_stdout_line s = Inr (r, s1) \<and>
           ((\<exists>e ts. waits s1 = WaitErr e # ts \<and> v = EXIT_FAILURE \<and>
                s' = emit (Perror ''wait()'') (s1\<lparr>waits := ts\<rparr>)) \<or>
            (\<exists>wpid status ts. waits s1 = WaitOk wpid status # ts \<and>
                report status wpid (s1\<lparr>waits := ts\<rparr>) = (Some v, s')))"
proof -
  from assms obtain r s1 where f: "flush_stdout_line s = Inr (r, s1)"
    by (cases "flush_stdout_line s") (auto simp: reap_child_def)
  show ?thesis
  proof (cases "waits s1")
    case Nil
    with assms f show ?thesis by (simp add: reap_child_def)
  next
    case (Cons w ts)
    show ?thesis
    proof (cases w)
      case (WaitErr e)
      with assms f Cons show ?thesis by (auto simp: reap_child_def)
    next
      case (WaitOk wpid status)
      from report_result [of status wpid "s1\<lparr>waits := ts\<rparr>"] assms f Cons WaitOk
      show ?thesis by (auto simp: reap_child_def)
    qed
  qed
qed

lemma parent_result:
  "parent so se ps s = Inr (v, ps', s') \<Longrightarrow>
     \<exists>s3. multiplex so se ps s = Inr (ps', s3) \<and> reap_child (fst so) (fst se) s3 = Inr (v, s')"
  by (auto simp: parent_def split: sum.splits)

lemma multiplex_invariant:
  assumes run: "multiplex so se ps s = Inr (ps', s')" and P: "P s"
    and cl: "\<And>t cs fd. P t \<Longrightarrow> fd = snd so \<or> fd = snd se \<Longrightarrow> P (emit (Close fd) (t\<lparr>closes := cs\<rparr>))"
    and env: "\<And>t js rs. P t \<Longrightarrow> P (t\<lparr>indet := js, reads := rs\<rparr>)"
    and msg: "\<And>t m. P t \<Longrightarrow> P (emit (Perror m) t) \<and> P (emit (Eprintf m) t)"
    and flush: "\<And>t r t'. P t \<Longrightarrow> flush_stdout_line t = Inr (r, t') \<Longrightarrow> P t'"
    and store: "\<And>t l p. P t \<Longrightarrow> P (t\<lparr>stdout_line := l, stdout_line_pos := p\<rparr>)"
    and err: "\<And>t c r t'. P t \<Longrightarrow> stderr_putc c t = Inr (r, t') \<Longrightarrow> P t'"
  shows "P s'"
proof -
  from run obtain rc s1 where c1: "close_fd (snd so) s = Inr (rc, s1)"
    by (cases "close_fd (snd so) s") (auto simp: multiplex_def)
  from close_fd_result [OF c1] cl [OF P] have P1: "P s1" by auto
  show ?thesis
  proof (cases "rc = - 1")
    case True
    with run c1 msg [OF P1] show ?thesis by (auto simp: multiplex_def)
  next
    case False
    with run c1 obtain rc' s2 where c2: "close_fd (snd se) s1 = Inr (rc', s2)"
      by (cases "close_fd (snd se) s1") (auto simp: multiplex_def)
    from close_fd_result [OF c2] cl [OF P1] have P2: "P s2" by auto
    show ?thesis
    proof (cases "rc' = - 1")
      case True
      with run c1 False c2 msg [OF P2] show ?thesis by (auto simp: multiplex_def)
    next
      case rc': False
      with run c1 False c2 have "parent_loop (fst so) (fst se) ps s2 = Inr (ps', s')"
        by (auto simp: multiplex_def)
      from multiplexing_invariant [OF this, where P = P, OF P2 env msg flush store err]
      show ?thesis by simp
    qed
  qed
qed

text \<open>A property kept by every step of \<^verbatim>\<open>parent\<close> holds when it returns.\<close>

lemma parent_invariant:
  assumes run: "parent so se ps s = Inr (v, ps', s')" and P: "P s"
    and cl: "\<And>t cs fd. P t \<Longrightarrow> fd = snd so \<or> fd = snd se \<Longrightarrow> P (emit (Close fd) (t\<lparr>closes := cs\<rparr>))"
    and env: "\<And>t js rs. P t \<Longrightarrow> P (t\<lparr>indet := js, reads := rs\<rparr>)"
    and wt: "\<And>t ts. P t \<Longrightarrow> P (t\<lparr>waits := ts\<rparr>)"
    and msg: "\<And>t m. P t \<Longrightarrow> P (emit (Perror m) t) \<and> P (emit (Eprintf m) t) \<and> P (emit (Printf m) t)"
    and flush: "\<And>t r t'. P t \<Longrightarrow> flush_stdout_line t = Inr (r, t') \<Longrightarrow> P t'"
    and store: "\<And>t l p. P t \<Longrightarrow> P (t\<lparr>stdout_line := l, stdout_line_pos := p\<rparr>)"
    and err: "\<And>t c r t'. P t \<Longrightarrow> stderr_putc c t = Inr (r, t') \<Longrightarrow> P t'"
  shows "P s'"
proof -
  from parent_result [OF run] obtain s3 where
    m: "multiplex so se ps s = Inr (ps', s3)" and r: "reap_child (fst so) (fst se) s3 = Inr (v, s')"
    by blast
  have msg': "P (emit (Perror m) t) \<and> P (emit (Eprintf m) t)" if "P t" for t m
    using msg [OF that] by simp
  from multiplex_invariant [OF m, where P = P, OF P cl env msg' flush store err]
  have P3: "P s3" by simp
  from reap_child_result [OF r] obtain r1 s4 where f: "flush_stdout_line s3 = Inr (r1, s4)"
    and w: "(\<exists>e ts. waits s4 = WaitErr e # ts \<and> v = EXIT_FAILURE \<and>
                s' = emit (Perror ''wait()'') (s4\<lparr>waits := ts\<rparr>)) \<or>
            (\<exists>wpid status ts. waits s4 = WaitOk wpid status # ts \<and>
                report status wpid (s4\<lparr>waits := ts\<rparr>) = (Some v, s'))"
    by blast
  from flush [OF P3 f] have P4: "P s4" .
  from w show ?thesis
  proof
    assume "\<exists>e ts. waits s4 = WaitErr e # ts \<and> v = EXIT_FAILURE \<and>
                s' = emit (Perror ''wait()'') (s4\<lparr>waits := ts\<rparr>)"
    with msg [OF wt [OF P4]] show ?thesis by auto
  next
    assume "\<exists>wpid status ts. waits s4 = WaitOk wpid status # ts \<and>
                report status wpid (s4\<lparr>waits := ts\<rparr>) = (Some v, s')"
    then obtain wpid status ts where
      rep: "report status wpid (s4\<lparr>waits := ts\<rparr>) = (Some v, s')" by blast
    from report_result [of status wpid "s4\<lparr>waits := ts\<rparr>"] rep msg [OF wt [OF P4, of ts]]
    show ?thesis by auto
  qed
qed

subsection \<open>Facts about whole runs\<close>

lemma write_fds_append [simp]: "write_fds (xs @ ys) = write_fds xs @ write_fds ys"
  by (induction xs rule: write_fds.induct) auto

lemma stdout_blocks_append [simp]: "stdout_blocks (xs @ ys) = stdout_blocks xs @ stdout_blocks ys"
  by (induction xs rule: stdout_blocks.induct) auto

lemma parent_waits:
  assumes "parent so se ps s = Inr (v, ps', s')"
  shows "\<exists>s3 r s4. multiplex so se ps s = Inr (ps', s3) \<and> flush_stdout_line s3 = Inr (r, s4) \<and>
           waits s4 = waits s \<and>
           ((\<exists>e ts. waits s = WaitErr e # ts \<and> v = EXIT_FAILURE \<and>
                s' = emit (Perror ''wait()'') (s4\<lparr>waits := ts\<rparr>)) \<or>
            (\<exists>wpid status ts. waits s = WaitOk wpid status # ts \<and>
                report status wpid (s4\<lparr>waits := ts\<rparr>) = (Some v, s')))"
proof -
  from parent_result [OF assms] obtain s3 where
    m: "multiplex so se ps s = Inr (ps', s3)" and r: "reap_child (fst so) (fst se) s3 = Inr (v, s')"
    by blast
  have "waits s3 = waits s"
    by (rule multiplex_invariant [OF m, where P = "\<lambda>t. waits t = waits s"])
       (auto simp: emit_def frame_def dest: flush_stdout_line_frame stderr_putc_frame)
  moreover from reap_child_result [OF r] obtain r1 s4 where f: "flush_stdout_line s3 = Inr (r1, s4)"
    and w: "(\<exists>e ts. waits s4 = WaitErr e # ts \<and> v = EXIT_FAILURE \<and>
                s' = emit (Perror ''wait()'') (s4\<lparr>waits := ts\<rparr>)) \<or>
            (\<exists>wpid status ts. waits s4 = WaitOk wpid status # ts \<and>
                report status wpid (s4\<lparr>waits := ts\<rparr>) = (Some v, s'))"
    by blast
  moreover from flush_stdout_line_frame [OF f] have "waits s4 = waits s3"
    by (simp add: frame_def)
  ultimately show ?thesis using m by auto
qed

lemma WEXITSTATUS_range: "0 \<le> WEXITSTATUS status \<and> WEXITSTATUS status \<le> 255"
  by (simp add: WEXITSTATUS_def)

lemma flush_stdout_line_closed:
  "flush_stdout_line t = Inr (r, t') \<Longrightarrow> closed_fds (trace t') = closed_fds (trace t)"
  by (drule flush_stdout_line_frame) (simp add: frame_def)

lemma stderr_putc_closed:
  "stderr_putc c t = Inr (r, t') \<Longrightarrow> closed_fds (trace t') = closed_fds (trace t)"
  by (drule stderr_putc_frame) (simp add: frame_def)

lemma scan_counts:
  "scan m es = Some m' \<Longrightarrow>
     begin_markers es + (if m then 1 else 0) = end_markers es + (if m' then 1 else 0)"
proof (induction m es rule: scan.induct)
  case (1 m)
  then show ?case by (simp add: begin_markers_def end_markers_def)
next
  case (2 m fd bs es)
  then show ?case
    by (simp add: begin_markers_def end_markers_def marker_facts split: if_splits)
qed (simp_all add: begin_markers_def end_markers_def)

lemma scan_fds:
  "scan m es = Some m' \<Longrightarrow> set (write_fds es) \<subseteq> {STDOUT_FILENO, STDERR_FILENO}"
  by (induction m es rule: scan.induct) (simp_all split: if_splits)

lemma scan_snoc:
  "(\<And>fd bs. e \<noteq> Write fd bs) \<Longrightarrow> scan m (es @ [e]) = scan m es"
  by (cases e) (auto simp: scan_append split: option.splits)

lemma rendered_emit:
  "rendered t \<Longrightarrow> (\<And>fd bs. e \<noteq> Write fd bs) \<Longrightarrow> rendered (emit e t)"
  by (simp add: rendered_def emit_def scan_snoc)

lemma parent_rendered:
  assumes run: "parent so se ps s = Inr (v, ps', s')" and "rendered s"
  shows "rendered s' \<and> \<not> in_stderr s'"
proof -
  let ?P = "\<lambda>t. rendered t"
  from parent_waits [OF run] obtain s3 r s4 where
    m: "multiplex so se ps s = Inr (ps', s3)" and f: "flush_stdout_line s3 = Inr (r, s4)"
    and e: "(\<exists>e ts. s' = emit (Perror ''wait()'') (s4\<lparr>waits := ts\<rparr>)) \<or>
            (\<exists>wpid status ts. report status wpid (s4\<lparr>waits := ts\<rparr>) = (Some v, s'))"
    by blast
  have "?P s3"
  proof (rule multiplex_invariant [OF m, where P = ?P])
    show "?P s" by fact
    show "?P (emit (Close fd) (t\<lparr>closes := cs\<rparr>))" if "?P t" for t cs fd
      using that by (simp add: rendered_def emit_def scan_snoc)
    show "?P (t\<lparr>indet := js, reads := rs\<rparr>)" if "?P t" for t js rs
      using that by (simp add: rendered_def)
    show "?P (emit (Perror m) t) \<and> ?P (emit (Eprintf m) t)" if "?P t" for t m
      using that by (simp add: rendered_emit)
    show "?P t'" if "?P t" "flush_stdout_line t = Inr (r, t')" for t r t'
      using flush_stdout_line_rendered [OF that] by simp
    show "?P (t\<lparr>stdout_line := l, stdout_line_pos := p\<rparr>)" if "?P t" for t l p
      using that by (simp add: rendered_def)
    show "?P t'" if "?P t" "stderr_putc c t = Inr (r, t')" for t c r t'
      using stderr_putc_rendered [OF that] .
  qed
  from flush_stdout_line_rendered [OF this f] have r4: "rendered s4" "\<not> in_stderr s4"
    by simp_all
  then have r5: "rendered (s4\<lparr>waits := ts\<rparr>)" for ts
    by (simp add: rendered_def)
  from e show ?thesis
  proof
    assume "\<exists>e ts. s' = emit (Perror ''wait()'') (s4\<lparr>waits := ts\<rparr>)"
    then obtain ts where "s' = emit (Perror ''wait()'') (s4\<lparr>waits := ts\<rparr>)" by blast
    with rendered_emit [OF r5 [of ts], of "Perror ''wait()''"] r4(2) show ?thesis
      by (simp add: emit_def)
  next
    assume "\<exists>wpid status ts. report status wpid (s4\<lparr>waits := ts\<rparr>) = (Some v, s')"
    then obtain wpid status ts where
      rep: "report status wpid (s4\<lparr>waits := ts\<rparr>) = (Some v, s')" by blast
    from report_result [of status wpid "s4\<lparr>waits := ts\<rparr>"] rep obtain m where
      "s' = emit (Printf m) (s4\<lparr>waits := ts\<rparr>) \<or> s' = emit (Eprintf m) (s4\<lparr>waits := ts\<rparr>)"
      by auto
    with rendered_emit [OF r5 [of ts], of "Printf m"] rendered_emit [OF r5 [of ts], of "Eprintf m"]
      r4(2) show ?thesis
      by (auto simp: emit_def)
  qed
qed

subsection \<open>Evaluating example runs\<close>

lemma take_update_last: "n < length xs \<Longrightarrow> take (Suc n) (xs[n := x]) = take n xs @ [x]"
  by (simp add: take_Suc_conv_app_nth)

lemma replicate_12: "replicate 12 x = [x, x, x, x, x, x, x, x, x, x, x, x]"
  by (simp add: eval_nat_numeral)

lemma replicate_4100: "replicate 4100 x = x # x # x # x # replicate 4096 x"
proof -
  have "replicate (4 + 4096) x = replicate 4 x @ replicate 4096 x"
    by (rule replicate_add)
  then show ?thesis by (simp add: eval_nat_numeral)
qed

lemmas run_simps =
  parent_def multiplex_def reap_child_def report_def close_fd_def iteration_def
  pump_stdout_def pump_stderr_def read_nointr_def stdout_putc_def stderr_putc_def
  flush_stdout_line_def set_stderr_def write_all_nointr_def write_all_loop.simps
  init_state_def emit_def Let_def sizeof_def outcome_def leftover_def
  STDERR_BEGIN_MARKER_def STDERR_END_MARKER_def c_string_def
  STDOUT_FILENO_def STDERR_FILENO_def EXIT_FAILURE_def EXIT_SUCCESS_def
  WIFEXITED_def WIFSIGNALED_def WTERMSIG_def WEXITSTATUS_def fmt_d_def digits.simps
  exited_0_def exited_3_def trace_plain_def trace_marker_lost_def trace_full_def
  polls_plain_def init_plain_def replicate_12 take_update_last

lemma run_plain_outcome: "outcome run_plain = Some (3, trace_plain)"
  by (simp add: run_plain_def run_simps)

lemma outcome_SomeD:
  "outcome r = Some (v, tr) \<Longrightarrow> \<exists>ps s. r = Inr (v, ps, s) \<and> trace s = tr"
  by (auto simp: outcome_def split: sum.splits)

lemma init_rendered: "no_fail ws \<Longrightarrow> rendered (init_state js cs rs ws ts)"
  by (simp add: rendered_def init_state_def)

lemma initial_init_state: "initial (init_state js cs rs ws ts)"
  by (simp add: initial_def init_state_def)

lemma initial_rendered: "initial s \<Longrightarrow> no_fail (writes s) \<Longrightarrow> rendered s"
  by (simp add: rendered_def initial_def)

lemma initial_line_ok: "initial s \<Longrightarrow> line_ok s"
  by (simp add: initial_def line_ok_def sizeof_def)

lemma write_all_nointr_fds:
  "write_all_nointr fd buf n s = Inr (rc, s') \<Longrightarrow> write_fds (trace s') = write_fds (trace s) @ [fd]"
  by (drule write_all_nointr_result) (auto simp: emit_def)

lemma set_stderr_fds:
  assumes "set_stderr b s = Inr (rc, s')"
  shows "set (write_fds (trace s')) \<subseteq> insert STDERR_FILENO (set (write_fds (trace s)))"
proof (cases "b = in_stderr s")
  case True
  with assms show ?thesis by (auto simp: set_stderr_def)
next
  case False
  with assms have "write_all_nointr STDERR_FILENO
      (if b then STDERR_BEGIN_MARKER else STDERR_END_MARKER)
      (sizeof (if b then STDERR_BEGIN_MARKER else STDERR_END_MARKER)) (s\<lparr>in_stderr := b\<rparr>) = Inr (rc, s')"
    by (auto simp: set_stderr_def Let_def split: if_splits)
  from write_all_nointr_fds [OF this] show ?thesis by auto
qed

lemma flush_stdout_line_fds:
  assumes "flush_stdout_line s = Inr (rc, s')"
  shows "set (write_fds (trace s')) \<subseteq> {STDOUT_FILENO, STDERR_FILENO} \<union> set (write_fds (trace s))"
proof -
  from assms obtain r1 s1 where s1: "set_stderr False s = Inr (r1, s1)"
    by (auto simp: flush_stdout_line_def split: sum.splits)
  note f1 = set_stderr_fds [OF s1]
  show ?thesis
  proof (cases "r1 = 0")
    case False
    with assms s1 f1 show ?thesis by (auto simp: flush_stdout_line_def)
  next
    case True
    with assms s1 obtain r2 s2 where
      s2: "write_all_nointr STDOUT_FILENO (stdout_line s1) (stdout_line_pos s1) s1 = Inr (r2, s2)"
      by (auto simp: flush_stdout_line_def split: sum.splits)
    from assms s1 True s2 have "trace s' = trace s2"
      by (auto simp: flush_stdout_line_def split: if_splits)
    with f1 write_all_nointr_fds [OF s2] show ?thesis by auto
  qed
qed

lemma stderr_putc_fds:
  assumes "stderr_putc c s = Inr (rc, s')"
  shows "set (write_fds (trace s')) \<subseteq> insert STDERR_FILENO (set (write_fds (trace s)))"
proof -
  from assms obtain r1 s1 where s1: "set_stderr True s = Inr (r1, s1)"
    by (auto simp: stderr_putc_def split: sum.splits)
  note f1 = set_stderr_fds [OF s1]
  show ?thesis
  proof (cases "r1 = 0")
    case False
    with assms s1 f1 show ?thesis by (auto simp: stderr_putc_def)
  next
    case True
    with assms s1 obtain r2 where
      s2: "write_all_nointr STDERR_FILENO [c] 1 s1 = Inr (r2, s')"
      by (auto simp: stderr_putc_def split: sum.splits if_splits)
    with f1 write_all_nointr_fds [OF s2] show ?thesis by auto
  qed
qed

lemma parent_fds:
  assumes run: "parent so se ps s = Inr (v, ps', s')"
    and "set (write_fds (trace s)) \<subseteq> {STDOUT_FILENO, STDERR_FILENO}"
  shows "set (write_fds (trace s')) \<subseteq> {STDOUT_FILENO, STDERR_FILENO}"
proof -
  let ?P = "\<lambda>t. set (write_fds (trace t)) \<subseteq> {STDOUT_FILENO, STDERR_FILENO}"
  show "?P s'"
  proof (rule parent_invariant [OF run, where P = ?P])
    show "?P s" by fact
    show "?P (emit (Close fd) (t\<lparr>closes := cs\<rparr>))" if "?P t" for t cs fd
      using that by (simp add: emit_def)
    show "?P (t\<lparr>indet := js, reads := rs\<rparr>)" if "?P t" for t js rs
      using that by simp
    show "?P (t\<lparr>waits := ts\<rparr>)" if "?P t" for t ts
      using that by simp
    show "?P (emit (Perror m) t) \<and> ?P (emit (Eprintf m) t) \<and> ?P (emit (Printf m) t)"
      if "?P t" for t m
      using that by (simp add: emit_def)
    show "?P t'" if "?P t" "flush_stdout_line t = Inr (r, t')" for t r t'
      using that flush_stdout_line_fds [OF that(2)] by auto
    show "?P (t\<lparr>stdout_line := l, stdout_line_pos := p\<rparr>)" if "?P t" for t l p
      using that by simp
    show "?P t'" if "?P t" "stderr_putc c t = Inr (r, t')" for t c r t'
      using that stderr_putc_fds [OF that(2)] by auto
  qed
qed

subsection \<open>A line that fills the buffer\<close>

lemma iteration_stdout_byte:
  assumes "indet s = j # js" and "reads s fd0 = RdByte b # rs"
    and "stdout_line_pos s < sizeof (stdout_line s)" and "b \<noteq> CHR 0x0A"
  shows "iteration fd0 fd1 (PollOk {POLLIN} {}) s =
           Inr (Again, s\<lparr>stdout_line := (stdout_line s)[stdout_line_pos s := b],
                          stdout_line_pos := stdout_line_pos s + 1,
                          indet := js, reads := (reads s)(fd0 := rs)\<rparr>)"
  using assms by (simp add: iteration_def pump_stdout_def read_nointr_def stdout_putc_plain)

lemma parent_loop_feed:
  assumes "indet s = js @ js'" and "length js = length cs"
    and "reads s fd0 = map RdByte cs @ rs'"
    and "stdout_line_pos s + length cs \<le> sizeof (stdout_line s)" and "CHR 0x0A \<notin> set cs"
  shows "\<exists>s1. parent_loop fd0 fd1 (replicate (length cs) (PollOk {POLLIN} {}) @ rest) s =
                parent_loop fd0 fd1 rest s1 \<and>
              indet s1 = js' \<and> reads s1 = (reads s)(fd0 := rs') \<and>
              stdout_line_pos s1 = stdout_line_pos s + length cs \<and>
              take (stdout_line_pos s1) (stdout_line s1) =
                take (stdout_line_pos s) (stdout_line s) @ cs \<and>
              sizeof (stdout_line s1) = sizeof (stdout_line s) \<and>
              in_stderr s1 = in_stderr s \<and> writes s1 = writes s \<and> waits s1 = waits s \<and>
              closes s1 = closes s \<and> trace s1 = trace s"
  using assms
proof (induction cs arbitrary: s js)
  case Nil
  then show ?case by (intro exI [of _ s]) auto
next
  case (Cons c cs)
  from Cons.prems(2) obtain j js0 where js: "js = j # js0" "length js0 = length cs"
    by (cases js) auto
  define s0 where "s0 = s\<lparr>stdout_line := (stdout_line s)[stdout_line_pos s := c],
                          stdout_line_pos := stdout_line_pos s + 1,
                          indet := js0 @ js', reads := (reads s)(fd0 := map RdByte cs @ rs')\<rparr>"
  have step: "iteration fd0 fd1 (PollOk {POLLIN} {}) s = Inr (Again, s0)"
    unfolding s0_def using Cons.prems js
    by (intro iteration_stdout_byte) auto
  have "\<exists>s1. parent_loop fd0 fd1 (replicate (length cs) (PollOk {POLLIN} {}) @ rest) s0 =
                parent_loop fd0 fd1 rest s1 \<and>
              indet s1 = js' \<and> reads s1 = (reads s0)(fd0 := rs') \<and>
              stdout_line_pos s1 = stdout_line_pos s0 + length cs \<and>
              take (stdout_line_pos s1) (stdout_line s1) =
                take (stdout_line_pos s0) (stdout_line s0) @ cs \<and>
              sizeof (stdout_line s1) = sizeof (stdout_line s0) \<and>
              in_stderr s1 = in_stderr s0 \<and> writes s1 = writes s0 \<and> waits s1 = waits s0 \<and>
              closes s1 = closes s0 \<and> trace s1 = trace s0"
    using Cons.prems js by (intro Cons.IH [of s0 js0]) (auto simp: s0_def sizeof_def)
  then obtain s1 where s1:
    "parent_loop fd0 fd1 (replicate (length cs) (PollOk {POLLIN} {}) @ rest) s0 =
       parent_loop fd0 fd1 rest s1"
    "indet s1 = js'" "reads s1 = (reads s0)(fd0 := rs')"
    "stdout_line_pos s1 = stdout_line_pos s0 + length cs"
    "take (stdout_line_pos s1) (stdout_line s1) = take (stdout_line_pos s0) (stdout_line s0) @ cs"
    "sizeof (stdout_line s1) = sizeof (stdout_line s0)"
    "in_stderr s1 = in_stderr s0" "writes s1 = writes s0" "waits s1 = waits s0"
    "closes s1 = closes s0" "trace s1 = trace s0"
    by blast
  have "take (stdout_line_pos s0) (stdout_line s0) = take (stdout_line_pos s) (stdout_line s) @ [c]"
    using Cons.prems(4) by (simp add: s0_def take_update_last sizeof_def)
  with s1 step show ?case
    by (intro exI [of _ s1]) (simp add: s0_def sizeof_def)
qed

lemma run_full_result:
  "\<exists>s'. run_full = Inr (0, [], s') \<and> trace s' = trace_full \<and> reads s' 3 = []"
proof -
  define s0 where "s0 = \<lparr>in_stderr = False, stdout_line = replicate 1024 (CHR 0x00),
      stdout_line_pos = 0, indet = replicate 1024 CHR ''?'' @ ''?'', closes = [],
      reads = (\<lambda>fd. [])(3 := map RdByte (replicate 1024 CHR ''a''), 5 := [RdByte CHR ''x'']),
      writes = replicate 4100 (WrAccept 1024), waits = [WaitOk 77 0],
      trace = [Close 4, Close 6]\<rparr>"
  define rest where "rest = [PollOk {} {POLLIN}, PollOk {POLLHUP} {POLLHUP}]"
  have m: "multiplex (3, 4) (5, 6) (replicate 1024 (PollOk {POLLIN} {}) @ rest) init_full =
      parent_loop 3 5 (replicate 1024 (PollOk {POLLIN} {}) @ rest) s0"
    by (simp add: multiplex_def close_fd_def init_full_def init_state_def emit_def s0_def)
  have "\<exists>s1. parent_loop 3 5
            (replicate (length (replicate 1024 CHR ''a'')) (PollOk {POLLIN} {}) @ rest) s0 =
                parent_loop 3 5 rest s1 \<and>
              indet s1 = ''?'' \<and> reads s1 = (reads s0)(3 := []) \<and>
              stdout_line_pos s1 = stdout_line_pos s0 + length (replicate 1024 CHR ''a'') \<and>
              take (stdout_line_pos s1) (stdout_line s1) =
                take (stdout_line_pos s0) (stdout_line s0) @ replicate 1024 CHR ''a'' \<and>
              sizeof (stdout_line s1) = sizeof (stdout_line s0) \<and>
              in_stderr s1 = in_stderr s0 \<and> writes s1 = writes s0 \<and> waits s1 = waits s0 \<and>
              closes s1 = closes s0 \<and> trace s1 = trace s0"
    by (rule parent_loop_feed [where js = "replicate 1024 CHR ''?''"])
       (simp_all add: s0_def sizeof_def)
  then obtain s1 where l: "parent_loop 3 5 (replicate 1024 (PollOk {POLLIN} {}) @ rest) s0 =
                parent_loop 3 5 rest s1"
    and f [simp]: "indet s1 = ''?''" "reads s1 5 = [RdByte CHR ''x'']" "reads s1 3 = []"
      "stdout_line_pos s1 = 1024" "take 1024 (stdout_line s1) = replicate 1024 CHR ''a''"
      "in_stderr s1 = False"
      "writes s1 = WrAccept 1024 # WrAccept 1024 # WrAccept 1024 # WrAccept 1024
         # replicate 4096 (WrAccept 1024)"
      "waits s1 = [WaitOk 77 0]" "trace s1 = [Close 4, Close 6]"
    by (auto simp: s0_def replicate_4100)
  show ?thesis
    unfolding run_full_def polls_full_def parent_def rest_def [symmetric] m l
    by (simp add: rest_def reap_child_def report_def iteration_def
        pump_stdout_def pump_stderr_def read_nointr_def stdout_putc_def stderr_putc_def
        flush_stdout_line_def set_stderr_def write_all_nointr_def write_all_loop.simps
        emit_def Let_def sizeof_def
        STDERR_BEGIN_MARKER_def STDERR_END_MARKER_def c_string_def
        STDOUT_FILENO_def STDERR_FILENO_def EXIT_FAILURE_def EXIT_SUCCESS_def
        WIFEXITED_def WIFSIGNALED_def WTERMSIG_def WEXITSTATUS_def fmt_d_def digits.simps
        exited_0_def trace_full_def)
qed

lemma read_nointr_reads:
  "read_nointr fd c s = Inr (r, s') \<Longrightarrow> \<exists>rs. s' = s\<lparr>reads := (reads s)(fd := rs)\<rparr>"
  by (auto simp: read_nointr_def split: sum.splits)

lemma stdout_putcs_fill:
  assumes "stdout_line_pos s + length cs \<le> sizeof (stdout_line s)" and "CHR 0x0A \<notin> set cs"
  shows "\<exists>s1. stdout_putcs cs s = Inr s1 \<and>
              stdout_line_pos s1 = stdout_line_pos s + length cs \<and>
              take (stdout_line_pos s1) (stdout_line s1) =
                take (stdout_line_pos s) (stdout_line s) @ cs \<and>
              trace s1 = trace s \<and> writes s1 = writes s \<and> in_stderr s1 = in_stderr s"
  using assms
proof (induction cs arbitrary: s)
  case Nil
  then show ?case by simp
next
  case (Cons c cs)
  define s0 where "s0 = s\<lparr>stdout_line := (stdout_line s)[stdout_line_pos s := c],
                          stdout_line_pos := stdout_line_pos s + 1\<rparr>"
  have step: "stdout_putc c s = Inr (0, s0)"
    unfolding s0_def using Cons.prems by (intro stdout_putc_plain) auto
  have "\<exists>s1. stdout_putcs cs s0 = Inr s1 \<and>
              stdout_line_pos s1 = stdout_line_pos s0 + length cs \<and>
              take (stdout_line_pos s1) (stdout_line s1) =
                take (stdout_line_pos s0) (stdout_line s0) @ cs \<and>
              trace s1 = trace s0 \<and> writes s1 = writes s0 \<and> in_stderr s1 = in_stderr s0"
    using Cons.prems by (intro Cons.IH) (auto simp: s0_def sizeof_def)
  then obtain s1 where s1: "stdout_putcs cs s0 = Inr s1"
    "stdout_line_pos s1 = stdout_line_pos s0 + length cs"
    "take (stdout_line_pos s1) (stdout_line s1) = take (stdout_line_pos s0) (stdout_line s0) @ cs"
    "trace s1 = trace s0" "writes s1 = writes s0" "in_stderr s1 = in_stderr s0"
    by blast
  have "take (stdout_line_pos s0) (stdout_line s0) = take (stdout_line_pos s) (stdout_line s) @ [c]"
    using Cons.prems(1) by (simp add: s0_def take_update_last sizeof_def)
  with s1 step show ?case
    by (intro exI [of _ s1]) (simp add: s0_def)
qed

subsection \<open>What is written, from what is read\<close>

lemma delivered_append [simp]: "delivered (xs @ ys) = delivered xs @ delivered ys"
  by (induction xs rule: delivered.induct) auto

lemma delivered_map [simp]: "delivered (map RdByte bs) = bs"
  by (induction bs) auto

lemma err_bytes_append [simp]: "err_bytes (xs @ ys) = err_bytes xs @ err_bytes ys"
  by (induction xs rule: err_bytes.induct) auto

lemma taken_eq: "reads s fd = c @ reads t fd \<Longrightarrow> taken s t fd = c"
  by (simp add: taken_def)

lemma lines_of_snoc: "lines_of (cs @ [c]) = line_step (lines_of cs) c"
  by (simp add: lines_of_def)

lemma lines_of_concat: "concat (fst (lines_of cs)) @ snd (lines_of cs) = cs"
proof (induction cs rule: rev_induct)
  case Nil
  show ?case by (simp add: lines_of_def)
next
  case (snoc c cs)
  then show ?case
    by (cases "lines_of cs") (auto simp: lines_of_snoc line_step_def Let_def)
qed

lemma lines_of_short:
  assumes "length bs \<le> 1024" and "CHR 0x0A \<notin> set bs"
  shows "lines_of bs = ([], bs)"
  using assms
proof (induction bs rule: rev_induct)
  case Nil
  show ?case by (simp add: lines_of_def)
next
  case (snoc c cs)
  then show ?case by (auto simp: lines_of_snoc line_step_def)
qed

lemma read_loop_taken:
  "read_loop xs c0 = Inr (rc, c, rs) \<Longrightarrow>
     \<exists>pre. xs = pre @ rs \<and>
       ((rc = 1 \<and> delivered pre = [c] \<and> RdEof \<notin> set pre) \<or>
        (rc = 0 \<and> RdEof \<in> set pre) \<or>
        (rc = - 1 \<and> delivered pre = [] \<and> RdEof \<notin> set pre))"
proof (induction xs c0 rule: read_loop.induct)
  case (1 c)
  then show ?case by simp
next
  case (2 b rs' c0)
  then show ?case by (intro exI [of _ "[RdByte b]"]) auto
next
  case (3 rs' c0)
  then show ?case by (intro exI [of _ "[RdEof]"]) auto
next
  case (4 e rs' c0)
  show ?case
  proof (cases "e = EINTR")
    case True
    with 4 obtain pre where "rs' = pre @ rs \<and>
       ((rc = 1 \<and> delivered pre = [c] \<and> RdEof \<notin> set pre) \<or>
        (rc = 0 \<and> RdEof \<in> set pre) \<or>
        (rc = - 1 \<and> delivered pre = [] \<and> RdEof \<notin> set pre))" by auto
    then show ?thesis by (intro exI [of _ "RdErr e # pre"]) auto
  next
    case False
    with 4 show ?thesis by (intro exI [of _ "[RdErr e]"]) auto
  qed
qed


lemma relayed_start:
  assumes "initial s" and "no_fail (writes s)"
  shows "relayed s fd0 fd1 s"
  using assms
  by (simp add: relayed_def taken_def initial_def line_ok_def sizeof_def lines_of_def)

lemma relayedI:
  assumes "reads s fd0 = c0 @ reads t fd0" and "reads s fd1 = c1 @ reads t fd1"
    and "line_ok t" and "no_fail (writes t)"
    and "RdEof \<in> set c0 \<or>
      (stdout_blocks (trace t), take (stdout_line_pos t) (stdout_line t)) = lines_of (delivered c0)"
    and "RdEof \<in> set c1 \<or> err_bytes (trace t) = delivered c1"
  shows "relayed s fd0 fd1 t"
  using assms taken_eq [OF assms(1)] taken_eq [OF assms(2)] by (simp add: relayed_def)

lemma relayed_emit:
  assumes "relayed s fd0 fd1 t" and "\<And>fd b. e \<noteq> Write fd b"
  shows "relayed s fd0 fd1 (emit e t)"
  using assms by (cases e) (auto simp: relayed_def taken_def emit_def line_ok_def)

lemma relayed_close:
  assumes "relayed s fd0 fd1 t" and "close_fd fd t = Inr (rc, t')"
  shows "relayed s fd0 fd1 t'"
proof -
  from close_fd_result [OF assms(2)] obtain cs where t': "t' = emit (Close fd) (t\<lparr>closes := cs\<rparr>)"
    by blast
  from assms(1) have "relayed s fd0 fd1 (t\<lparr>closes := cs\<rparr>)"
    by (simp add: relayed_def taken_def line_ok_def)
  from relayed_emit [OF this, of "Close fd"] t' show ?thesis by simp
qed

lemma flush_stdout_line_lines:
  assumes f: "flush_stdout_line t = Inr (rc, t')" and n: "no_fail (writes t)"
  shows "rc = 0 \<and> no_fail (writes t') \<and> reads t' = reads t \<and> stdout_line t' = stdout_line t \<and>
         stdout_line_pos t' = 0 \<and>
         stdout_blocks (trace t') =
           stdout_blocks (trace t) @ [take (stdout_line_pos t) (stdout_line t)] \<and>
         err_bytes (trace t') = err_bytes (trace t)"
  using flush_stdout_line_no_fail [OF f n] flush_stdout_line_frame [OF f]
  by (auto simp: frame_def marker_facts)

lemma stdout_putc_lines:
  assumes run: "stdout_putc c t = Inr (rc, t')" and n: "no_fail (writes t)" and ok: "line_ok t"
  shows "no_fail (writes t') \<and> line_ok t' \<and> reads t' = reads t \<and>
         (stdout_blocks (trace t'), take (stdout_line_pos t') (stdout_line t')) =
           line_step (stdout_blocks (trace t), take (stdout_line_pos t) (stdout_line t)) c \<and>
         err_bytes (trace t') = err_bytes (trace t)"
proof -
  define pre where "pre = (if stdout_line_pos t \<ge> sizeof (stdout_line t) then flush_stdout_line t
            else Inr (0, t))"
  define store where "store s1 = s1\<lparr>stdout_line := (stdout_line s1)[stdout_line_pos s1 := c],
                        stdout_line_pos := stdout_line_pos s1 + 1\<rparr>" for s1 :: state
  define bl where "bl = stdout_blocks (trace t)"
  define buf where "buf = take (stdout_line_pos t) (stdout_line t)"
  have eq: "stdout_putc c t =
     (case pre of
        Inl f \<Rightarrow> Inl f
      | Inr (rc, s1) \<Rightarrow>
          if rc \<noteq> 0 then Inr (1, s1)
          else if \<not> stdout_line_pos s1 < sizeof (stdout_line s1) then Inl OutOfBounds
          else
            if c = CHR 0x0A
               then (case flush_stdout_line (store s1) of
                       Inl f \<Rightarrow> Inl f
                     | Inr (rc', s3) \<Rightarrow> if rc' \<noteq> 0 then Inr (1, s3) else Inr (0, s3))
               else Inr (0, store s1))"
    by (simp only: stdout_putc_def pre_def store_def Let_def)
  from run obtain r s1 where pre: "pre = Inr (r, s1)"
    unfolding eq by (cases pre) auto
  have len: "length buf = stdout_line_pos t"
    using ok by (simp add: buf_def line_ok_def sizeof_def)
  have s1: "r = 0 \<and> no_fail (writes s1) \<and> reads s1 = reads t \<and> stdout_line s1 = stdout_line t \<and>
      stdout_line_pos s1 < 1024 \<and>
      (stdout_blocks (trace s1), take (stdout_line_pos s1) (stdout_line s1)) =
        (if 1024 \<le> length buf then (bl @ [buf], []) else (bl, buf)) \<and>
      err_bytes (trace s1) = err_bytes (trace t)"
  proof (cases "stdout_line_pos t \<ge> sizeof (stdout_line t)")
    case True
    with pre have "flush_stdout_line t = Inr (r, s1)" by (simp add: pre_def)
    from flush_stdout_line_lines [OF this n] True ok len show ?thesis
      by (simp add: bl_def buf_def line_ok_def)
  next
    case False
    with pre have "r = 0" "s1 = t" by (simp_all add: pre_def)
    with False ok n len show ?thesis by (simp add: bl_def buf_def line_ok_def)
  qed
  define bl1 where "bl1 = stdout_blocks (trace s1)"
  define buf1 where "buf1 = take (stdout_line_pos s1) (stdout_line s1)"
  from s1 have step: "line_step (bl, buf) c =
      (if c = CHR 0x0A then (bl1 @ [buf1 @ [c]], []) else (bl1, buf1 @ [c]))"
    by (auto simp: line_step_def bl1_def buf1_def)
  have size1: "sizeof (stdout_line s1) = 1024"
    using s1 ok by (simp add: line_ok_def)
  have st: "no_fail (writes (store s1)) \<and> reads (store s1) = reads t \<and>
      sizeof (stdout_line (store s1)) = 1024 \<and> stdout_line_pos (store s1) \<le> 1024 \<and>
      stdout_blocks (trace (store s1)) = bl1 \<and>
      take (stdout_line_pos (store s1)) (stdout_line (store s1)) = buf1 @ [c] \<and>
      err_bytes (trace (store s1)) = err_bytes (trace t)"
    using s1 size1 by (simp add: store_def bl1_def buf1_def take_update_last sizeof_def)
  show ?thesis
  proof (cases "c = CHR 0x0A")
    case False
    with run pre s1 size1 have "t' = store s1" unfolding eq by (auto split: if_splits)
    with st step False show ?thesis
      by (simp add: line_ok_def bl_def buf_def)
  next
    case True
    with run pre s1 size1 obtain r3 where f: "flush_stdout_line (store s1) = Inr (r3, t')"
      unfolding eq by (cases "flush_stdout_line (store s1)") (auto split: if_splits)
    from st have "no_fail (writes (store s1))" by simp
    from flush_stdout_line_lines [OF f this] st step True show ?thesis
      by (simp add: line_ok_def bl_def buf_def)
  qed
qed

lemma stderr_putc_lines:
  assumes run: "stderr_putc c t = Inr (rc, t')" and n: "no_fail (writes t)"
  shows "no_fail (writes t') \<and> reads t' = reads t \<and> stdout_line t' = stdout_line t \<and>
         stdout_line_pos t' = stdout_line_pos t \<and>
         stdout_blocks (trace t') = stdout_blocks (trace t) \<and>
         err_bytes (trace t') = err_bytes (trace t) @ [c]"
  using stderr_putc_no_fail [OF run n] stderr_putc_frame [OF run]
  by (auto simp: frame_def marker_facts)


lemma read_nointr_taken:
  assumes "read_nointr fd c0 t = Inr ((rc, c), t1)"
  shows "\<exists>pre rs. reads t fd = pre @ rs \<and> t1 = t\<lparr>reads := (reads t)(fd := rs)\<rparr> \<and>
       ((rc = 1 \<and> delivered pre = [c] \<and> RdEof \<notin> set pre) \<or>
        (rc = 0 \<and> RdEof \<in> set pre) \<or>
        (rc = - 1 \<and> delivered pre = [] \<and> RdEof \<notin> set pre))"
proof -
  from assms obtain rs where l: "read_loop (reads t fd) c0 = Inr (rc, c, rs)"
    and t1: "t1 = t\<lparr>reads := (reads t)(fd := rs)\<rparr>"
    by (auto simp: read_nointr_def split: sum.splits)
  from read_loop_taken [OF l] t1 show ?thesis by blast
qed

lemma pump_stdout_relayed:
  assumes inv: "relayed s fd0 fd1 t" and ne: "fd0 \<noteq> fd1"
    and run: "pump_stdout fd0 t = Inr (b, t')"
  shows "relayed s fd0 fd1 t'"
proof -
  define c0 where "c0 = taken s t fd0"
  define c1 where "c1 = taken s t fd1"
  from inv have i0: "reads s fd0 = c0 @ reads t fd0" and i1: "reads s fd1 = c1 @ reads t fd1"
    and ok: "line_ok t" and n: "no_fail (writes t)"
    and out: "RdEof \<in> set c0 \<or>
      (stdout_blocks (trace t), take (stdout_line_pos t) (stdout_line t)) = lines_of (delivered c0)"
    and err: "RdEof \<in> set c1 \<or> err_bytes (trace t) = delivered c1"
    by (simp_all add: relayed_def c0_def c1_def)
  from run obtain j js where i: "indet t = j # js"
    by (cases "indet t") (auto simp: pump_stdout_def)
  with run obtain rc c t1 where r: "read_nointr fd0 j (t\<lparr>indet := js\<rparr>) = Inr ((rc, c), t1)"
    by (cases "read_nointr fd0 j (t\<lparr>indet := js\<rparr>)") (auto simp: pump_stdout_def)
  from read_nointr_taken [OF r] obtain pre rs where
    pre: "reads t fd0 = pre @ rs" and t1: "t1 = t\<lparr>indet := js, reads := (reads t)(fd0 := rs)\<rparr>"
    and rc: "(rc = 1 \<and> delivered pre = [c] \<and> RdEof \<notin> set pre) \<or>
        (rc = 0 \<and> RdEof \<in> set pre) \<or>
        (rc = - 1 \<and> delivered pre = [] \<and> RdEof \<notin> set pre)"
    by auto
  have r0: "reads s fd0 = (c0 @ pre) @ reads t1 fd0" and r1: "reads s fd1 = c1 @ reads t1 fd1"
    using i0 i1 pre ne by (simp_all add: t1)
  have ok1: "line_ok t1" and n1: "no_fail (writes t1)"
    and same: "trace t1 = trace t" "stdout_line t1 = stdout_line t"
      "stdout_line_pos t1 = stdout_line_pos t"
    using ok n by (simp_all add: t1 line_ok_def)
  show ?thesis
  proof (cases "rc = - 1")
    case True
    with run i r have t': "t' = emit (Perror ''read() from stdout pipe'') t1"
      by (auto simp: pump_stdout_def)
    have "relayed s fd0 fd1 t1"
      using r0 r1 ok1 n1
    proof (rule relayedI)
      show "RdEof \<in> set (c0 @ pre) \<or>
        (stdout_blocks (trace t1), take (stdout_line_pos t1) (stdout_line t1)) =
          lines_of (delivered (c0 @ pre))"
        using out rc True same by auto
      show "RdEof \<in> set c1 \<or> err_bytes (trace t1) = delivered c1"
        using err same by simp
    qed
    from relayed_emit [OF this, of "Perror ''read() from stdout pipe''"] t' show ?thesis by simp
  next
    case False
    with run i r obtain r2 where p: "stdout_putc c t1 = Inr (r2, t')"
      by (cases "stdout_putc c t1") (auto simp: pump_stdout_def)
    note L = stdout_putc_lines [OF p n1 ok1]
    from L have r0': "reads s fd0 = (c0 @ pre) @ reads t' fd0"
      and r1': "reads s fd1 = c1 @ reads t' fd1"
      using r0 r1 by simp_all
    from L have ok': "line_ok t'" and n': "no_fail (writes t')" by simp_all
    show ?thesis
      using r0' r1' ok' n'
    proof (rule relayedI)
      show "RdEof \<in> set (c0 @ pre) \<or>
        (stdout_blocks (trace t'), take (stdout_line_pos t') (stdout_line t')) =
          lines_of (delivered (c0 @ pre))"
      proof (cases "RdEof \<in> set (c0 @ pre)")
        case True
        then show ?thesis by simp
      next
        case no: False
        with rc False have d: "delivered pre = [c]" by auto
        from no out have "(stdout_blocks (trace t), take (stdout_line_pos t) (stdout_line t)) =
            lines_of (delivered c0)" by auto
        with L d same show ?thesis by (simp add: lines_of_snoc)
      qed
      show "RdEof \<in> set c1 \<or> err_bytes (trace t') = delivered c1"
        using err same L by auto
    qed
  qed
qed

lemma pump_stderr_relayed:
  assumes inv: "relayed s fd0 fd1 t" and ne: "fd0 \<noteq> fd1"
    and run: "pump_stderr fd1 t = Inr (b, t')"
  shows "relayed s fd0 fd1 t'"
proof -
  define c0 where "c0 = taken s t fd0"
  define c1 where "c1 = taken s t fd1"
  from inv have i0: "reads s fd0 = c0 @ reads t fd0" and i1: "reads s fd1 = c1 @ reads t fd1"
    and ok: "line_ok t" and n: "no_fail (writes t)"
    and out: "RdEof \<in> set c0 \<or>
      (stdout_blocks (trace t), take (stdout_line_pos t) (stdout_line t)) = lines_of (delivered c0)"
    and err: "RdEof \<in> set c1 \<or> err_bytes (trace t) = delivered c1"
    by (simp_all add: relayed_def c0_def c1_def)
  from run obtain j js where i: "indet t = j # js"
    by (cases "indet t") (auto simp: pump_stderr_def)
  with run obtain rc c t1 where r: "read_nointr fd1 j (t\<lparr>indet := js\<rparr>) = Inr ((rc, c), t1)"
    by (cases "read_nointr fd1 j (t\<lparr>indet := js\<rparr>)") (auto simp: pump_stderr_def)
  from read_nointr_taken [OF r] obtain pre rs where
    pre: "reads t fd1 = pre @ rs" and t1: "t1 = t\<lparr>indet := js, reads := (reads t)(fd1 := rs)\<rparr>"
    and rc: "(rc = 1 \<and> delivered pre = [c] \<and> RdEof \<notin> set pre) \<or>
        (rc = 0 \<and> RdEof \<in> set pre) \<or>
        (rc = - 1 \<and> delivered pre = [] \<and> RdEof \<notin> set pre)"
    by auto
  have r0: "reads s fd0 = c0 @ reads t1 fd0" and r1: "reads s fd1 = (c1 @ pre) @ reads t1 fd1"
    using i0 i1 pre ne by (simp_all add: t1)
  have ok1: "line_ok t1" and n1: "no_fail (writes t1)"
    and same: "trace t1 = trace t" "stdout_line t1 = stdout_line t"
      "stdout_line_pos t1 = stdout_line_pos t"
    using ok n by (simp_all add: t1 line_ok_def)
  show ?thesis
  proof (cases "rc = - 1")
    case True
    with run i r have t': "t' = emit (Perror ''read() from stderr pipe'') t1"
      by (auto simp: pump_stderr_def)
    have "relayed s fd0 fd1 t1"
      using r0 r1 ok1 n1
    proof (rule relayedI)
      show "RdEof \<in> set c0 \<or>
        (stdout_blocks (trace t1), take (stdout_line_pos t1) (stdout_line t1)) =
          lines_of (delivered c0)"
        using out same by simp
      show "RdEof \<in> set (c1 @ pre) \<or> err_bytes (trace t1) = delivered (c1 @ pre)"
        using err rc True same by auto
    qed
    from relayed_emit [OF this, of "Perror ''read() from stderr pipe''"] t' show ?thesis by simp
  next
    case False
    with run i r obtain r2 where p: "stderr_putc c t1 = Inr (r2, t')"
      by (cases "stderr_putc c t1") (auto simp: pump_stderr_def)
    note L = stderr_putc_lines [OF p n1]
    from L have r0': "reads s fd0 = c0 @ reads t' fd0"
      and r1': "reads s fd1 = (c1 @ pre) @ reads t' fd1"
      using r0 r1 by simp_all
    from L ok1 have ok': "line_ok t'" and n': "no_fail (writes t')"
      by (simp_all add: line_ok_def)
    show ?thesis
      using r0' r1' ok' n'
    proof (rule relayedI)
      show "RdEof \<in> set c0 \<or>
        (stdout_blocks (trace t'), take (stdout_line_pos t') (stdout_line t')) =
          lines_of (delivered c0)"
        using out same L by auto
      show "RdEof \<in> set (c1 @ pre) \<or> err_bytes (trace t') = delivered (c1 @ pre)"
      proof (cases "RdEof \<in> set (c1 @ pre)")
        case True
        then show ?thesis by simp
      next
        case no: False
        with rc False have d: "delivered pre = [c]" by auto
        from no err have "err_bytes (trace t) = delivered c1" by auto
        with L d same show ?thesis by simp
      qed
    qed
  qed
qed

lemma multiplex_relayed:
  assumes run: "multiplex so se ps t = Inr (ps', t')" and inv: "relayed s (fst so) (fst se) t"
    and ne: "fst so \<noteq> fst se"
  shows "relayed s (fst so) (fst se) t'"
proof -
  let ?P = "relayed s (fst so) (fst se)"
  have loop: "?P u'" if "?P u" "parent_loop (fst so) (fst se) ps u = Inr (ps', u')" for u u'
  proof (rule parent_loop_invariant [OF that(2), where P = ?P, OF that(1)])
    fix t p c t'
    assume t: "?P t" and i: "iteration (fst so) (fst se) p t = Inr (c, t')"
    show "?P t'"
    proof (rule iteration_invariant [OF i, where P = ?P, OF t])
      show "?P u'" if "?P u" "pump_stdout (fst so) u = Inr (b, u')" for u b u'
        using pump_stdout_relayed [OF that(1) ne that(2)] .
      show "?P u'" if "?P u" "pump_stderr (fst se) u = Inr (b, u')" for u b u'
        using pump_stderr_relayed [OF that(1) ne that(2)] .
      show "?P (emit (Perror m) u) \<and> ?P (emit (Eprintf m) u)" if "?P u" for u m
        using relayed_emit [OF that] by simp
    qed
  qed
  from run obtain rc s1 where c1: "close_fd (snd so) t = Inr (rc, s1)"
    by (cases "close_fd (snd so) t") (auto simp: multiplex_def)
  note P1 = relayed_close [OF inv c1]
  show ?thesis
  proof (cases "rc = - 1")
    case True
    with run c1 relayed_emit [OF P1] show ?thesis by (auto simp: multiplex_def)
  next
    case False
    with run c1 obtain rc' s2 where c2: "close_fd (snd se) s1 = Inr (rc', s2)"
      by (cases "close_fd (snd se) s1") (auto simp: multiplex_def)
    note P2 = relayed_close [OF P1 c2]
    show ?thesis
    proof (cases "rc' = - 1")
      case True
      with run c1 False c2 relayed_emit [OF P2] show ?thesis by (auto simp: multiplex_def)
    next
      case rc': False
      with run c1 False c2 have "parent_loop (fst so) (fst se) ps s2 = Inr (ps', t')"
        by (auto simp: multiplex_def)
      from loop [OF P2 this] show ?thesis .
    qed
  qed
qed

text \<open>What a run has written, from what it has read.\<close>

lemma parent_relayed:
  assumes run: "parent so se ps s = Inr (v, ps', s')" and init: "initial s"
    and n: "no_fail (writes s)" and ne: "fst so \<noteq> fst se"
  shows "reads s (fst so) = taken s s' (fst so) @ reads s' (fst so) \<and>
         reads s (fst se) = taken s s' (fst se) @ reads s' (fst se) \<and>
         (RdEof \<in> set (taken s s' (fst so)) \<or>
          (\<exists>tr e. trace s' =
               tr @ [Write STDOUT_FILENO (snd (lines_of (delivered (taken s s' (fst so))))), e] \<and>
             stdout_blocks tr = fst (lines_of (delivered (taken s s' (fst so)))) \<and>
             write_fds [e] = [])) \<and>
         (RdEof \<in> set (taken s s' (fst se)) \<or>
          err_bytes (trace s') = delivered (taken s s' (fst se)))"
proof -
  from parent_waits [OF run] obtain s3 r s4 where
    m: "multiplex so se ps s = Inr (ps', s3)"
    and fl: "flush_stdout_line s3 = Inr (r, s4)"
    and e: "(\<exists>e ts. s' = emit (Perror ''wait()'') (s4\<lparr>waits := ts\<rparr>)) \<or>
            (\<exists>wpid status ts. report status wpid (s4\<lparr>waits := ts\<rparr>) = (Some v, s'))"
    by blast
  have "\<exists>e1 ts1. s' = emit e1 (s4\<lparr>waits := ts1\<rparr>) \<and> (\<forall>fd b. e1 \<noteq> Write fd b)"
    using e
  proof
    assume "\<exists>e ts. s' = emit (Perror ''wait()'') (s4\<lparr>waits := ts\<rparr>)"
    then obtain ts0 where "s' = emit (Perror ''wait()'') (s4\<lparr>waits := ts0\<rparr>)" by blast
    then show ?thesis
      by (intro exI [of _ "Perror ''wait()''"] exI [of _ ts0]) simp
  next
    assume "\<exists>wpid status ts. report status wpid (s4\<lparr>waits := ts\<rparr>) = (Some v, s')"
    then obtain wpid status ts0 where
      rep: "report status wpid (s4\<lparr>waits := ts0\<rparr>) = (Some v, s')" by blast
    from report_result [of status wpid "s4\<lparr>waits := ts0\<rparr>"] rep obtain m0 where
      "s' = emit (Printf m0) (s4\<lparr>waits := ts0\<rparr>) \<or> s' = emit (Eprintf m0) (s4\<lparr>waits := ts0\<rparr>)"
      by auto
    then show ?thesis
    proof
      assume "s' = emit (Printf m0) (s4\<lparr>waits := ts0\<rparr>)"
      then show ?thesis by (intro exI [of _ "Printf m0"] exI [of _ ts0]) simp
    next
      assume "s' = emit (Eprintf m0) (s4\<lparr>waits := ts0\<rparr>)"
      then show ?thesis by (intro exI [of _ "Eprintf m0"] exI [of _ ts0]) simp
    qed
  qed
  then obtain e1 ts1 where s': "s' = emit e1 (s4\<lparr>waits := ts1\<rparr>)"
    and e1: "\<And>fd b. e1 \<noteq> Write fd b"
    by blast
  have w1: "write_fds [e1] = []" and b1: "stdout_blocks [e1] = []" and x1: "err_bytes [e1] = []"
    using e1 by (cases e1; simp)+
  from multiplex_relayed [OF m relayed_start [OF init n] ne]
  have inv: "relayed s (fst so) (fst se) s3" .
  then have n3: "no_fail (writes s3)" by (simp add: relayed_def)
  note F = flush_stdout_line_lines [OF fl n3]
  from F s' have rd: "reads s' = reads s3" by (simp add: emit_def)
  then have tk: "taken s s' fd = taken s s3 fd" for fd by (simp add: taken_def)
  define tr where "tr = trace s3 @
      (if in_stderr s3 then [Write STDERR_FILENO STDERR_END_MARKER] else [])"
  from flush_stdout_line_no_fail [OF fl n3] s'
  have t': "trace s' =
      tr @ [Write STDOUT_FILENO (take (stdout_line_pos s3) (stdout_line s3)), e1]"
    by (simp add: tr_def emit_def)
  have trb: "stdout_blocks tr = stdout_blocks (trace s3)"
    and tre: "err_bytes tr = err_bytes (trace s3)"
    by (simp_all add: tr_def marker_facts)
  have x': "err_bytes (trace s') = err_bytes (trace s3)"
    unfolding t' using tre x1 by (simp add: marker_facts)
  from inv have sfx: "reads s (fst so) = taken s s3 (fst so) @ reads s3 (fst so)"
      "reads s (fst se) = taken s s3 (fst se) @ reads s3 (fst se)"
    and out: "RdEof \<in> set (taken s s3 (fst so)) \<or>
      (stdout_blocks (trace s3), take (stdout_line_pos s3) (stdout_line s3)) =
         lines_of (delivered (taken s s3 (fst so)))"
    and err: "RdEof \<in> set (taken s s3 (fst se)) \<or>
      err_bytes (trace s3) = delivered (taken s s3 (fst se))"
    by (simp_all add: relayed_def)
  have "\<exists>tr e. trace s' =
               tr @ [Write STDOUT_FILENO (snd (lines_of (delivered (taken s s3 (fst so))))), e] \<and>
             stdout_blocks tr = fst (lines_of (delivered (taken s s3 (fst so)))) \<and>
             write_fds [e] = []"
    if "RdEof \<notin> set (taken s s3 (fst so))"
  proof -
    from that out have p: "(stdout_blocks (trace s3), take (stdout_line_pos s3) (stdout_line s3)) =
         lines_of (delivered (taken s s3 (fst so)))" by simp
    have "stdout_blocks (trace s3) = fst (lines_of (delivered (taken s s3 (fst so))))"
      and "take (stdout_line_pos s3) (stdout_line s3) =
         snd (lines_of (delivered (taken s s3 (fst so))))"
      by (simp_all add: p [symmetric])
    with t' trb w1 show ?thesis by auto
  qed
  with sfx err x' show ?thesis
    unfolding tk rd by auto
qed

subsection \<open>Scripts that suffice\<close>

lemma wr_ok_less: "wr_ok n s \<Longrightarrow> m \<le> n \<Longrightarrow> wr_ok m s"
  by (simp add: wr_ok_def)

lemma write_all_nointr_returns:
  assumes "wr_ok (Suc n) s" and "nbyte \<le> 1024"
  shows "\<exists>s'. write_all_nointr fd buf nbyte s = Inr (0, s') \<and> wr_ok n s'"
proof -
  from assms(1) obtain k ws where w: "writes s = WrAccept k # ws" "1024 \<le> k"
    "n \<le> length ws" "list_all accepts_all ws"
    by (cases "writes s"; cases "hd (writes s)") (auto simp: wr_ok_def)
  show ?thesis
  proof (cases "nbyte = 0")
    case True
    with assms(1) show ?thesis
      by (simp add: write_all_nointr_def write_all_loop.simps Let_def emit_def wr_ok_def)
  next
    case False
    with w assms(2) have "write_all_loop (writes s) nbyte 0 = Inr (0, nbyte, ws)"
      by (simp add: write_all_loop.simps [of _ nbyte] min_def)
    with w show ?thesis
      by (simp add: write_all_nointr_def Let_def emit_def wr_ok_def)
  qed
qed

lemma set_stderr_returns:
  assumes "wr_ok (Suc n) s"
  shows "\<exists>s'. set_stderr b s = Inr (0, s') \<and> wr_ok n s'"
proof (cases "b = in_stderr s")
  case True
  with wr_ok_less [OF assms, of n] show ?thesis by (simp add: set_stderr_def)
next
  case False
  define m where "m = (if b then STDERR_BEGIN_MARKER else STDERR_END_MARKER)"
  have "wr_ok (Suc n) (s\<lparr>in_stderr := b\<rparr>)" using assms by (simp add: wr_ok_def)
  moreover have "sizeof m \<le> 1024"
    by (simp add: m_def sizeof_def STDERR_BEGIN_MARKER_def STDERR_END_MARKER_def c_string_def)
  ultimately obtain s' where
    "write_all_nointr STDERR_FILENO m (sizeof m) (s\<lparr>in_stderr := b\<rparr>) = Inr (0, s')" "wr_ok n s'"
    using write_all_nointr_returns by blast
  moreover have "set_stderr b s = write_all_nointr STDERR_FILENO m (sizeof m) (s\<lparr>in_stderr := b\<rparr>)"
    using False by (auto simp: set_stderr_def Let_def m_def)
  ultimately show ?thesis by auto
qed

lemma flush_stdout_line_returns:
  assumes "wr_ok (Suc (Suc n)) s" and "line_ok s"
  shows "\<exists>s'. flush_stdout_line s = Inr (0, s') \<and> wr_ok n s'"
proof -
  from set_stderr_returns [OF assms(1)] obtain s1 where
    s1: "set_stderr False s = Inr (0, s1)" "wr_ok (Suc n) s1" by blast
  from set_stderr_frame [OF s1(1)] assms(2) have "stdout_line_pos s1 \<le> 1024"
    by (simp add: line_ok_def)
  from write_all_nointr_returns [OF s1(2) this] obtain s2 where
    "write_all_nointr STDOUT_FILENO (stdout_line s1) (stdout_line_pos s1) s1 = Inr (0, s2)"
    "wr_ok n s2" by blast
  with s1 show ?thesis by (simp add: flush_stdout_line_def wr_ok_def)
qed

lemma stderr_putc_returns:
  assumes "wr_ok (Suc (Suc n)) s"
  shows "\<exists>s'. stderr_putc c s = Inr (0, s') \<and> wr_ok n s'"
proof -
  from set_stderr_returns [OF assms(1)] obtain s1 where
    s1: "set_stderr True s = Inr (0, s1)" "wr_ok (Suc n) s1" by blast
  from write_all_nointr_returns [OF s1(2), of 1] obtain s2 where
    "write_all_nointr STDERR_FILENO [c] 1 s1 = Inr (0, s2)" "wr_ok n s2" by auto
  with s1 show ?thesis by (simp add: stderr_putc_def)
qed

lemma stdout_putc_returns:
  assumes "wr_ok (n + 4) s" and "line_ok s"
  shows "\<exists>s'. stdout_putc c s = Inr (0, s') \<and> wr_ok n s'"
proof -
  define pre where "pre = (if stdout_line_pos s \<ge> sizeof (stdout_line s) then flush_stdout_line s
            else Inr (0, s))"
  define put where "put s1 = s1\<lparr>stdout_line := (stdout_line s1)[stdout_line_pos s1 := c],
                        stdout_line_pos := stdout_line_pos s1 + 1\<rparr>" for s1 :: state
  have eq: "stdout_putc c s =
     (case pre of
        Inl f \<Rightarrow> Inl f
      | Inr (rc, s1) \<Rightarrow>
          if rc \<noteq> 0 then Inr (1, s1)
          else if \<not> stdout_line_pos s1 < sizeof (stdout_line s1) then Inl OutOfBounds
          else
            if c = CHR 0x0A
               then (case flush_stdout_line (put s1) of
                       Inl f \<Rightarrow> Inl f
                     | Inr (rc', s3) \<Rightarrow> if rc' \<noteq> 0 then Inr (1, s3) else Inr (0, s3))
               else Inr (0, put s1))"
    by (simp only: stdout_putc_def pre_def put_def Let_def)
  have "wr_ok (Suc (Suc (n + 2))) s" using assms(1) by (simp add: wr_ok_def)
  from flush_stdout_line_returns [OF this assms(2)] obtain sf where
    sf: "flush_stdout_line s = Inr (0, sf)" "wr_ok (n + 2) sf" by blast
  define s1 where "s1 = (if stdout_line_pos s \<ge> sizeof (stdout_line s) then sf else s)"
  have pre: "pre = Inr (0, s1)"
    using sf by (simp add: pre_def s1_def)
  have w1: "wr_ok (n + 2) s1"
    using sf assms(1) by (auto simp: s1_def wr_ok_def)
  have l1: "stdout_line_pos s1 < sizeof (stdout_line s1)" "sizeof (stdout_line s1) = 1024"
    using flush_stdout_line_frame [OF sf(1)] assms(2)
    by (auto simp: s1_def line_ok_def)
  have w2: "wr_ok (Suc (Suc n)) (put s1)" "line_ok (put s1)"
    using w1 l1 by (auto simp: put_def wr_ok_def line_ok_def sizeof_def)
  from flush_stdout_line_returns [OF w2] obtain s3 where
    s3: "flush_stdout_line (put s1) = Inr (0, s3)" "wr_ok n s3" by blast
  show ?thesis
  proof (cases "c = CHR 0x0A")
    case True
    with pre l1 s3 show ?thesis unfolding eq by simp
  next
    case False
    with pre l1 wr_ok_less [OF w2(1), of n] show ?thesis unfolding eq by simp
  qed
qed


lemma list_all_tl: "list_all P xs \<Longrightarrow> list_all P (tl xs)"
  by (cases xs) auto

lemma enough_Cons: "enough (p # ps) fd0 fd1 s \<Longrightarrow> enough ps fd0 fd1 s"
  by (auto simp: enough_def wr_ok_def split: if_splits)

lemma enough_Nil: "enough ps fd0 fd1 s \<Longrightarrow> enough [] fd0 fd1 s"
  by (auto simp: enough_def wr_ok_def)

lemma read_loop_returns:
  assumes "rs \<noteq> []" and "list_all (\<lambda>r. r \<noteq> RdErr EINTR) rs"
  shows "\<exists>rc c'. read_loop rs c = Inr (rc, c', tl rs)"
proof -
  from assms obtain r rs' where rs: "rs = r # rs'" "r \<noteq> RdErr EINTR"
    by (cases rs) auto
  then show ?thesis by (cases r) auto
qed

lemma pump_stdout_returns:
  assumes "indet s \<noteq> []" and "reads s fd \<noteq> []"
    and "list_all (\<lambda>r. r \<noteq> RdErr EINTR) (reads s fd)" and "wr_ok (n + 4) s" and "line_ok s"
  shows "\<exists>b s'. pump_stdout fd s = Inr (b, s') \<and> indet s' = tl (indet s) \<and>
           reads s' = (reads s)(fd := tl (reads s fd)) \<and> wr_ok n s' \<and> line_ok s' \<and>
           closes s' = closes s \<and> waits s' = waits s"
proof -
  from assms(1) obtain c0 js where i: "indet s = c0 # js" by (cases "indet s") auto
  from read_loop_returns [OF assms(2,3)] obtain rc c where
    r: "read_loop (reads s fd) c0 = Inr (rc, c, tl (reads s fd))" by blast
  define s1 where "s1 = s\<lparr>indet := js, reads := (reads s)(fd := tl (reads s fd))\<rparr>"
  have rd: "read_nointr fd c0 (s\<lparr>indet := js\<rparr>) = Inr ((rc, c), s1)"
    using r by (simp add: read_nointr_def s1_def)
  have s1: "wr_ok (n + 4) s1" "line_ok s1"
    using assms(4,5) by (simp_all add: s1_def wr_ok_def line_ok_def)
  show ?thesis
  proof (cases "rc = - 1")
    case True
    with i rd have "pump_stdout fd s = Inr (False, emit (Perror ''read() from stdout pipe'') s1)"
      by (simp add: pump_stdout_def)
    with s1 i show ?thesis
      by (auto simp: emit_def wr_ok_def line_ok_def s1_def)
  next
    case False
    from stdout_putc_returns [OF s1] obtain s' where
      p: "stdout_putc c s1 = Inr (0, s')" "wr_ok n s'" by blast
    from stdout_putc_safe(2) [OF s1(2) p(1)] have "line_ok s'" "frame s1 s'" by simp_all
    moreover from False i rd p have "pump_stdout fd s = Inr (True, s')"
      by (simp add: pump_stdout_def)
    ultimately show ?thesis using p(2) i by (auto simp: frame_def s1_def)
  qed
qed

lemma pump_stderr_returns:
  assumes "indet s \<noteq> []" and "reads s fd \<noteq> []"
    and "list_all (\<lambda>r. r \<noteq> RdErr EINTR) (reads s fd)" and "wr_ok (n + 2) s" and "line_ok s"
  shows "\<exists>b s'. pump_stderr fd s = Inr (b, s') \<and> indet s' = tl (indet s) \<and>
           reads s' = (reads s)(fd := tl (reads s fd)) \<and> wr_ok n s' \<and> line_ok s' \<and>
           closes s' = closes s \<and> waits s' = waits s"
proof -
  from assms(1) obtain c0 js where i: "indet s = c0 # js" by (cases "indet s") auto
  from read_loop_returns [OF assms(2,3)] obtain rc c where
    r: "read_loop (reads s fd) c0 = Inr (rc, c, tl (reads s fd))" by blast
  define s1 where "s1 = s\<lparr>indet := js, reads := (reads s)(fd := tl (reads s fd))\<rparr>"
  have rd: "read_nointr fd c0 (s\<lparr>indet := js\<rparr>) = Inr ((rc, c), s1)"
    using r by (simp add: read_nointr_def s1_def)
  have s1: "wr_ok (Suc (Suc n)) s1" "line_ok s1"
    using assms(4,5) by (simp_all add: s1_def wr_ok_def line_ok_def)
  show ?thesis
  proof (cases "rc = - 1")
    case True
    with i rd have "pump_stderr fd s = Inr (False, emit (Perror ''read() from stderr pipe'') s1)"
      by (simp add: pump_stderr_def)
    with s1 i show ?thesis
      by (auto simp: emit_def wr_ok_def line_ok_def s1_def)
  next
    case False
    from stderr_putc_returns [OF s1(1)] obtain s' where
      p: "stderr_putc c s1 = Inr (0, s')" "wr_ok n s'" by blast
    from stderr_putc_frame [OF p(1)] s1(2) have "line_ok s'" "frame s1 s'"
      by (simp_all add: line_ok_def)
    moreover from False i rd p have "pump_stderr fd s = Inr (True, s')"
      by (simp add: pump_stderr_def)
    ultimately show ?thesis using p(2) i by (auto simp: frame_def s1_def)
  qed
qed


lemma iteration_returns:
  assumes e: "enough (p # ps) fd0 fd1 s" and ne: "fd0 \<noteq> fd1"
  shows "\<exists>c s'. iteration fd0 fd1 p s = Inr (c, s') \<and> enough ps fd0 fd1 s' \<and>
           closes s' = closes s \<and> waits s' = waits s \<and> (leaves p \<longrightarrow> c = Leave)"
proof (cases p)
  case (PollErr x)
  with enough_Cons [OF e] show ?thesis
    by (simp add: iteration_def emit_def enough_def wr_ok_def line_ok_def)
next
  case (PollOk r0 r1)
  define bad where "bad \<longleftrightarrow> r0 \<inter> {POLLERR, POLLNVAL} \<noteq> {} \<or> r1 \<inter> {POLLERR, POLLNVAL} \<noteq> {}"
  define first where "first = (if r0 \<inter> {POLLIN, POLLPRI} \<noteq> {} then pump_stdout fd0 s
                   else Inr (True, s))"
  define second where "second s1 = (if r1 \<inter> {POLLIN, POLLPRI} \<noteq> {} then pump_stderr fd1 s1
                          else Inr (True, s1))" for s1
  have eq: "iteration fd0 fd1 p s =
     (if bad then Inr (Leave, emit (Eprintf (''stream error'' @ [CHR 0x0A])) s)
      else
        (case first of
           Inl f \<Rightarrow> Inl f
         | Inr (go0, s1) \<Rightarrow>
             if \<not> go0 then Inr (Leave, s1)
             else
               (case second s1 of
                  Inl f \<Rightarrow> Inl f
                | Inr (go1, s2) \<Rightarrow>
                    if \<not> go1 then Inr (Leave, s2)
                    else
                      if \<not> r0 \<inter> {POLLIN, POLLPRI} \<noteq> {} \<and> \<not> r1 \<inter> {POLLIN, POLLPRI} \<noteq> {}
                      then Inr (Leave, s2)
                      else Inr (Again, s2))))"
    unfolding PollOk by (simp only: iteration_def bad_def first_def second_def Let_def poll_resp.case)
  have lv: "leaves p \<longleftrightarrow> bad \<or> (r0 \<inter> {POLLIN, POLLPRI} = {} \<and> r1 \<inter> {POLLIN, POLLPRI} = {})"
    by (simp only: PollOk leaves.simps bad_def) blast
  define a where "a = length (filter out_ready ps)"
  define b where "b = length (filter err_ready ps)"
  define eb :: nat where "eb = (if r1 \<inter> {POLLIN, POLLPRI} \<noteq> {} then 1 else 0)"
  define ea :: nat where "ea = (if r0 \<inter> {POLLIN, POLLPRI} \<noteq> {} then 1 else 0)"
  from e have e0: "line_ok s" "a + ea + b + eb \<le> length (indet s)"
    "a + ea \<le> length (reads s fd0)" "b + eb \<le> length (reads s fd1)"
    "list_all (\<lambda>r. r \<noteq> RdErr EINTR) (reads s fd0)"
    "list_all (\<lambda>r. r \<noteq> RdErr EINTR) (reads s fd1)"
    "wr_ok (4 * (a + ea) + 2 * (b + eb) + 2) s"
    by (auto simp: enough_def PollOk a_def b_def ea_def eb_def)
  show ?thesis
  proof (cases bad)
    case True
    with enough_Cons [OF e] show ?thesis
      unfolding eq by (simp add: emit_def enough_def wr_ok_def line_ok_def)
  next
    case False
    text \<open>after the standard output\<close>
    have "\<exists>go0 s1. first = Inr (go0, s1) \<and> line_ok s1 \<and>
            a + b + eb \<le> length (indet s1) \<and> a \<le> length (reads s1 fd0) \<and>
            b + eb \<le> length (reads s1 fd1) \<and>
            list_all (\<lambda>r. r \<noteq> RdErr EINTR) (reads s1 fd0) \<and>
            list_all (\<lambda>r. r \<noteq> RdErr EINTR) (reads s1 fd1) \<and>
            wr_ok (4 * a + 2 * (b + eb) + 2) s1 \<and> closes s1 = closes s \<and> waits s1 = waits s"
    proof (cases "r0 \<inter> {POLLIN, POLLPRI} \<noteq> {}")
      case False
      with e0 show ?thesis by (auto simp: first_def ea_def)
    next
      case True
      then have ea: "ea = 1" by (simp add: ea_def)
      have "wr_ok (4 * a + 2 * (b + eb) + 2 + 4) s" using e0(7) ea by (simp add: wr_ok_def)
      moreover from e0 ea have "indet s \<noteq> []" "reads s fd0 \<noteq> []" by auto
      ultimately obtain g s1 where "pump_stdout fd0 s = Inr (g, s1)" "indet s1 = tl (indet s)"
        "reads s1 = (reads s)(fd0 := tl (reads s fd0))" "wr_ok (4 * a + 2 * (b + eb) + 2) s1"
        "line_ok s1" "closes s1 = closes s" "waits s1 = waits s"
        using pump_stdout_returns e0(1,5) by blast
      with True e0 ea ne show ?thesis
        by (auto simp: first_def list_all_tl)
    qed
    then obtain go0 s1 where f: "first = Inr (go0, s1)" and s1: "line_ok s1"
      "a + b + eb \<le> length (indet s1)" "a \<le> length (reads s1 fd0)"
      "b + eb \<le> length (reads s1 fd1)" "list_all (\<lambda>r. r \<noteq> RdErr EINTR) (reads s1 fd0)"
      "list_all (\<lambda>r. r \<noteq> RdErr EINTR) (reads s1 fd1)" "wr_ok (4 * a + 2 * (b + eb) + 2) s1"
      "closes s1 = closes s" "waits s1 = waits s"
      by blast
    then have e1: "enough ps fd0 fd1 s1"
      by (simp add: enough_def wr_ok_def a_def b_def)
    text \<open>after the standard error\<close>
    have "\<exists>go1 s2. second s1 = Inr (go1, s2) \<and> enough ps fd0 fd1 s2 \<and>
            closes s2 = closes s \<and> waits s2 = waits s"
    proof (cases "r1 \<inter> {POLLIN, POLLPRI} \<noteq> {}")
      case False
      with e1 s1 show ?thesis by (auto simp: second_def)
    next
      case True
      then have eb: "eb = 1" by (simp add: eb_def)
      have "wr_ok (4 * a + 2 * b + 2 + 2) s1" using s1 eb by (simp add: wr_ok_def)
      moreover from s1 eb have "indet s1 \<noteq> []" "reads s1 fd1 \<noteq> []" by auto
      ultimately obtain g s2 where "pump_stderr fd1 s1 = Inr (g, s2)" "indet s2 = tl (indet s1)"
        "reads s2 = (reads s1)(fd1 := tl (reads s1 fd1))" "wr_ok (4 * a + 2 * b + 2) s2"
        "line_ok s2" "closes s2 = closes s1" "waits s2 = waits s1"
        using pump_stderr_returns s1(1,6) by blast
      with True s1 eb ne show ?thesis
        by (auto simp: second_def enough_def list_all_tl a_def b_def)
    qed
    then obtain go1 s2 where g: "second s1 = Inr (go1, s2)" and s2: "enough ps fd0 fd1 s2"
      "closes s2 = closes s" "waits s2 = waits s"
      by blast
    from False f g e1 s1 s2 lv show ?thesis
      unfolding eq by auto
  qed
qed

lemma parent_loop_returns:
  assumes "enough ps fd0 fd1 s" and "fd0 \<noteq> fd1" and "ps \<noteq> []" and "leaves (last ps)"
  shows "\<exists>ps' s'. parent_loop fd0 fd1 ps s = Inr (ps', s') \<and> enough [] fd0 fd1 s' \<and>
           closes s' = closes s \<and> waits s' = waits s"
  using assms
proof (induction ps arbitrary: s)
  case Nil
  then show ?case by simp
next
  case (Cons p ps)
  from iteration_returns [OF Cons.prems(1,2)] obtain c s1 where
    i: "iteration fd0 fd1 p s = Inr (c, s1)" and s1: "enough ps fd0 fd1 s1"
    "closes s1 = closes s" "waits s1 = waits s" and lv: "leaves p \<longrightarrow> c = Leave"
    by blast
  show ?case
  proof (cases c)
    case Leave
    with i s1 enough_Nil [OF s1(1)] show ?thesis by simp
  next
    case Again
    with lv have "\<not> leaves p" by auto
    with Cons.prems(4) have ps: "ps \<noteq> []" "leaves (last ps)" by (auto split: if_splits)
    from Cons.IH [OF s1(1) Cons.prems(2) ps] i Again s1 show ?thesis by simp
  qed
qed

lemma reap_child_returns:
  assumes "wr_ok 2 s" and "line_ok s" and "waits s \<noteq> []"
  shows "\<exists>v s'. reap_child fd0 fd1 s = Inr (v, s')"
proof -
  from assms(1) have "wr_ok (Suc (Suc 0)) s" by (simp add: numeral_2_eq_2)
  from flush_stdout_line_returns [OF this assms(2)] obtain s1 where
    f: "flush_stdout_line s = Inr (0, s1)" by blast
  from flush_stdout_line_frame [OF f] assms(3) obtain w ts where w: "waits s1 = w # ts"
    by (cases "waits s1") (auto simp: frame_def)
  show ?thesis
  proof (cases w)
    case (WaitErr e)
    with f w show ?thesis by (simp add: reap_child_def)
  next
    case (WaitOk wpid status)
    from report_result [of status wpid "s1\<lparr>waits := ts\<rparr>"] f w WaitOk show ?thesis
      by (auto simp: reap_child_def)
  qed
qed

text \<open>With scripts that suffice and a last \<^verbatim>\<open>poll\<close> that ends the loop, \<^verbatim>\<open>parent\<close> returns.\<close>

lemma parent_returns:
  assumes e: "enough ps r0 r1 s" and ne: "r0 \<noteq> r1" and ps: "ps \<noteq> []" "leaves (last ps)"
    and cl: "2 \<le> length (closes s)" and wt: "waits s \<noteq> []"
  shows "\<exists>v ps' s'. parent (r0, w0) (r1, w1) ps s = Inr (v, ps', s')"
proof -
  have reap: "\<exists>v s'. reap_child r0 r1 t = Inr (v, s')"
    if "enough [] r0 r1 t" "waits t = waits s" for t
    using that wt by (intro reap_child_returns) (auto simp: enough_def wr_ok_def)
  have "\<exists>ps' s3. multiplex (r0, w0) (r1, w1) ps s = Inr (ps', s3) \<and> enough [] r0 r1 s3 \<and>
          waits s3 = waits s"
  proof -
    from cl obtain c1 c2 cs where c: "closes s = c1 # c2 # cs"
      by (cases "closes s"; cases "tl (closes s)") auto
    define s1 where "s1 = emit (Close w0) (s\<lparr>closes := c2 # cs\<rparr>)"
    define s2 where "s2 = emit (Close w1) (s1\<lparr>closes := cs\<rparr>)"
    have e1: "enough ps r0 r1 s1" "waits s1 = waits s"
      using e by (simp_all add: s1_def emit_def enough_def wr_ok_def line_ok_def)
    then have e2: "enough ps r0 r1 s2" "waits s2 = waits s" "closes s2 = cs"
      by (simp_all add: s2_def emit_def enough_def wr_ok_def line_ok_def)
    have msg: "enough [] r0 r1 (emit (Perror m) t) \<and> waits (emit (Perror m) t) = waits s"
      if "enough ps r0 r1 t" "waits t = waits s" for t m
      using that by (simp add: emit_def enough_def wr_ok_def line_ok_def)
    from parent_loop_returns [OF e2(1) ne ps] obtain ps' s3 where
      l: "parent_loop r0 r1 ps s2 = Inr (ps', s3)" "enough [] r0 r1 s3" "waits s3 = waits s2"
      by blast
    show ?thesis
    proof (cases c1)
      case (CloseErr x)
      with c msg [OF e1] show ?thesis
        by (simp add: multiplex_def close_fd_def s1_def)
    next
      case CloseOk
      show ?thesis
      proof (cases c2)
        case (CloseErr x)
        with c \<open>c1 = CloseOk\<close> msg [OF e2(1,2)] show ?thesis
          by (simp add: multiplex_def close_fd_def s1_def s2_def emit_def)
      next
        case c2: CloseOk
        with c \<open>c1 = CloseOk\<close> l e2 show ?thesis
          by (simp add: multiplex_def close_fd_def s1_def s2_def emit_def)
      qed
    qed
  qed
  then obtain ps' s3 where "multiplex (r0, w0) (r1, w1) ps s = Inr (ps', s3)"
    "enough [] r0 r1 s3" "waits s3 = waits s" by blast
  with reap [of s3] show ?thesis by (auto simp: parent_def)
qed

subsection \<open>The example runs have scripts that suffice\<close>

lemma enough_plain: "enough polls_plain 3 5 init_plain"
  by (simp add: enough_def polls_plain_def init_plain_def init_state_def line_ok_def sizeof_def
      wr_ok_def list_all_iff)

lemma enough_full: "enough polls_full 3 5 init_full"
  by (simp add: enough_def polls_full_def init_full_def init_state_def line_ok_def sizeof_def
      wr_ok_def list_all_iff filter_replicate)

lemma initial_plain: "initial init_plain"
  by (simp add: init_plain_def initial_init_state)

lemma initial_full: "initial init_full"
  by (simp add: init_full_def initial_init_state)

lemma no_fail_replicate: "no_fail (replicate n (WrAccept k))"
  by (simp add: no_fail_def list_all_iff)

lemma leaves_hangup: "leaves (PollOk {POLLHUP} {POLLHUP})"
  by simp

lemma run_plain_result:
  "\<exists>ps s'. run_plain = Inr (3, ps, s') \<and> trace s' = trace_plain \<and> reads s' 3 = [] \<and>
     reads s' 5 = []"
  by (simp add: run_plain_def run_simps)

lemma no_write_no_block: "write_fds [e] = [] \<Longrightarrow> stdout_blocks [e] = []"
  by (cases e) simp_all

section \<open>The line buffer\<close>

text \<open>
  Claim C9. Through every sequence of calls of \<^verbatim>\<open>stdout_putc\<close> the write position stays at
  most 1024 and no byte is stored outside the array \<^verbatim>\<open>stdout_line\<close>: the sequence never ends
  in the fault \<open>OutOfBounds\<close>, and a call that returns 0 has stored its byte at an index below
  1024, which is index 0 when the position had reached 1024, the buffer having been flushed and
  the position reset before the store.
\<close>

theorem stdout_putc_never_out_of_bounds:
  assumes "line_ok s"
  shows "stdout_putcs cs s \<noteq> Inl OutOfBounds \<and>
         (\<forall>s'. stdout_putcs cs s = Inr s' \<longrightarrow> line_ok s') \<and>
         (\<forall>s'. stdout_putc c s = Inr (0, s') \<longrightarrow>
            (\<exists>i < 1024. stdout_line s' = (stdout_line s)[i := c] \<and>
                (stdout_line_pos s = 1024 \<longrightarrow> i = 0) \<and>
                stdout_line_pos s' = (if c = CHR 0x0A then 0 else i + 1)))"
proof -
  have "\<exists>i < 1024. stdout_line s' = (stdout_line s)[i := c] \<and>
                (stdout_line_pos s = 1024 \<longrightarrow> i = 0) \<and>
                stdout_line_pos s' = (if c = CHR 0x0A then 0 else i + 1)"
    if "stdout_putc c s = Inr (0, s')" for s'
    using stdout_putc_stores [OF assms that]
    by (intro exI [of _ "if stdout_line_pos s < 1024 then stdout_line_pos s else 0"]) auto
  with stdout_putcs_safe [OF assms, of cs] show ?thesis by blast
qed

theorem stdout_putc_never_out_of_bounds_witness:
  "line_ok full_line \<and>
   stdout_putcs ''ab'' full_line \<noteq> Inl OutOfBounds \<and>
   (\<exists>s'. stdout_putcs ''ab'' full_line = Inr s' \<and> line_ok s' \<and> stdout_line_pos s' = 2) \<and>
   (\<exists>s'. stdout_putc CHR ''a'' full_line = Inr (0, s') \<and> stdout_line_pos s' = 1 \<and>
         stdout_line s' ! 0 = CHR ''a'')"
  using stdout_putc_never_out_of_bounds [of full_line "''ab''" "CHR ''a''"]
  by (simp add: full_line_def init_state_def stdout_putc_def flush_stdout_line_def set_stderr_def
      write_all_nointr_def write_all_loop.simps sizeof_def emit_def Let_def STDOUT_FILENO_def
      line_ok_def)

section \<open>The markers\<close>

text \<open>
  Claim C10. A change of mode writes the marker with the length \<^verbatim>\<open>sizeof\<close> of its array, which
  counts the terminating NUL: the begin marker is a write of the six bytes ESC \<^verbatim>\<open>[31m\<close> NUL, the
  end marker a write of the four bytes ESC \<^verbatim>\<open>[m\<close> NUL. When the script of \<^verbatim>\<open>write\<close> holds a
  result that accepts, the call returns 0, and whenever it returns 0 exactly these bytes have
  gone to descriptor 2.
\<close>

theorem marker_write_includes_nul:
  assumes "in_stderr s \<noteq> is_stderr"
  shows "set_stderr is_stderr s =
           write_all_nointr 2
             (if is_stderr then [CHR 0x1B, CHR ''['', CHR ''3'', CHR ''1'', CHR ''m'', CHR 0x00]
              else [CHR 0x1B, CHR ''['', CHR ''m'', CHR 0x00])
             (if is_stderr then 6 else 4) (s\<lparr>in_stderr := is_stderr\<rparr>) \<and>
         (wr_ok 1 s \<longrightarrow> (\<exists>s'. set_stderr is_stderr s = Inr (0, s'))) \<and>
         (\<forall>s'. set_stderr is_stderr s = Inr (0, s') \<longrightarrow>
            trace s' = trace s @
              [Write 2 (if is_stderr
                        then [CHR 0x1B, CHR ''['', CHR ''3'', CHR ''1'', CHR ''m'', CHR 0x00]
                        else [CHR 0x1B, CHR ''['', CHR ''m'', CHR 0x00])])"
proof -
  let ?m = "if is_stderr then [CHR 0x1B, CHR ''['', CHR ''3'', CHR ''1'', CHR ''m'', CHR 0x00]
              else [CHR 0x1B, CHR ''['', CHR ''m'', CHR 0x00]"
  let ?n = "if is_stderr then 6 else 4 :: nat"
  have call: "set_stderr is_stderr s = write_all_nointr 2 ?m ?n (s\<lparr>in_stderr := is_stderr\<rparr>)"
    using assms
    by (auto simp: set_stderr_def Let_def STDERR_FILENO_def STDERR_BEGIN_MARKER_def
        STDERR_END_MARKER_def c_string_def sizeof_def eval_nat_numeral)
  have "trace s' = trace s @ [Write 2 ?m]" if "set_stderr is_stderr s = Inr (0, s')" for s'
    using write_all_nointr_result [OF that [unfolded call]]
    by (auto simp: emit_def)
  moreover have "\<exists>s'. set_stderr is_stderr s = Inr (0, s')" if "wr_ok 1 s"
    using set_stderr_returns [of 0 s is_stderr] that by auto
  ultimately show ?thesis using call by blast
qed

theorem marker_write_includes_nul_witness:
  "in_stderr (init_state [] [] (\<lambda>fd. []) [WrAccept 1024] []) \<noteq> True \<and>
   wr_ok 1 (init_state [] [] (\<lambda>fd. []) [WrAccept 1024] []) \<and>
   set_stderr True (init_state [] [] (\<lambda>fd. []) [WrAccept 1024] []) =
     write_all_nointr 2 [CHR 0x1B, CHR ''['', CHR ''3'', CHR ''1'', CHR ''m'', CHR 0x00] 6
       ((init_state [] [] (\<lambda>fd. []) [WrAccept 1024] [])\<lparr>in_stderr := True\<rparr>) \<and>
   (\<exists>s'. set_stderr True (init_state [] [] (\<lambda>fd. []) [WrAccept 1024] []) = Inr (0, s') \<and>
      trace s' = [Write 2 [CHR 0x1B, CHR ''['', CHR ''3'', CHR ''1'', CHR ''m'', CHR 0x00]])"
proof -
  let ?s = "init_state [] [] (\<lambda>fd. []) [WrAccept 1024] []"
  have a: "in_stderr ?s \<noteq> True" and b: "wr_ok 1 ?s" and c: "trace ?s = []"
    by (simp_all add: init_state_def wr_ok_def)
  note T = marker_write_includes_nul [OF a]
  from T b obtain s' where r: "set_stderr True ?s = Inr (0, s')" by blast
  with T c have
    "trace s' = [Write 2 [CHR 0x1B, CHR ''['', CHR ''3'', CHR ''1'', CHR ''m'', CHR 0x00]]"
    by simp
  with r T a b show ?thesis by auto
qed

section \<open>Balance of the markers\<close>

text \<open>
  Claim C3, as amended. A run of \<^verbatim>\<open>parent\<close> from the initial state returns when the scripts
  suffice and the last result of \<^verbatim>\<open>poll\<close> leaves the loop; and in every run that returns and
  in which no write fails, as many begin markers as end markers have been written, and the
  mode is plain at the end: the last flush, which \<^verbatim>\<open>parent\<close> performs whatever the buffer
  holds, resets the mode.
\<close>

theorem markers_balanced_when_writes_succeed:
  assumes "initial s" and "no_fail (writes s)"
  shows "(enough ps (fst so) (fst se) s \<and> fst so \<noteq> fst se \<and> ps \<noteq> [] \<and> leaves (last ps) \<and>
            2 \<le> length (closes s) \<and> waits s \<noteq> [] \<longrightarrow>
            (\<exists>v ps' s'. parent so se ps s = Inr (v, ps', s'))) \<and>
         (\<forall>v ps' s'. parent so se ps s = Inr (v, ps', s') \<longrightarrow>
            begin_markers (trace s') = end_markers (trace s') \<and> \<not> in_stderr s')"
proof -
  have "\<exists>v ps' s'. parent so se ps s = Inr (v, ps', s')"
    if "enough ps (fst so) (fst se) s" "fst so \<noteq> fst se" "ps \<noteq> []" "leaves (last ps)"
      "2 \<le> length (closes s)" "waits s \<noteq> []"
    using parent_returns [OF that, of "snd so" "snd se"] by simp
  moreover have "begin_markers (trace s') = end_markers (trace s') \<and> \<not> in_stderr s'"
    if run: "parent so se ps s = Inr (v, ps', s')" for v ps' s'
  proof -
    from parent_rendered [OF run initial_rendered [OF assms]]
    have "scan False (trace s') = Some False" and "\<not> in_stderr s'"
      by (simp_all add: rendered_def)
    with scan_counts [of False "trace s'" False] show ?thesis by simp
  qed
  ultimately show ?thesis by blast
qed

theorem markers_balanced_when_writes_succeed_witness:
  "initial init_plain \<and> no_fail (writes init_plain) \<and> enough polls_plain 3 5 init_plain \<and>
   leaves (last polls_plain) \<and>
   (\<exists>v ps' s'. run_plain = Inr (v, ps', s') \<and>
      begin_markers (trace s') = end_markers (trace s') \<and> \<not> in_stderr s') \<and>
   outcome run_plain = Some (3, trace_plain) \<and>
   begin_markers trace_plain = 1 \<and> end_markers trace_plain = 1"
proof -
  have n: "no_fail (writes init_plain)"
    by (simp add: init_plain_def init_state_def no_fail_replicate)
  have l: "leaves (last polls_plain)" and p: "polls_plain \<noteq> []"
    by (simp_all add: polls_plain_def)
  have c: "2 \<le> length (closes init_plain)" and w: "waits init_plain \<noteq> []"
    by (simp_all add: init_plain_def init_state_def)
  have e: "enough polls_plain (fst (3 :: int, 4 :: int)) (fst (5 :: int, 6 :: int)) init_plain"
    using enough_plain by simp
  note T = markers_balanced_when_writes_succeed [OF initial_plain n,
      where ps = polls_plain and so = "(3, 4)" and se = "(5, 6)"]
  from T e l p c w obtain v ps' s' where
    r: "parent (3, 4) (5, 6) polls_plain init_plain = Inr (v, ps', s')" by auto
  with T have b: "begin_markers (trace s') = end_markers (trace s') \<and> \<not> in_stderr s'"
    by blast
  from r have r': "run_plain = Inr (v, ps', s')" by (simp add: run_plain_def)
  from run_plain_outcome [unfolded r'] have t: "trace s' = trace_plain"
    by (simp add: outcome_def)
  have "end_markers trace_plain = 1"
    by (simp add: end_markers_def trace_plain_def STDERR_FILENO_def STDERR_END_MARKER_def
        c_string_def exited_3_def)
  with b t have m: "begin_markers trace_plain = 1 \<and> end_markers trace_plain = 1" by simp
  from r' b have "\<exists>v ps' s'. run_plain = Inr (v, ps', s') \<and>
      begin_markers (trace s') = end_markers (trace s') \<and> \<not> in_stderr s'"
    by blast
  with m n l initial_plain enough_plain run_plain_outcome show ?thesis by blast
qed

text \<open>
  The claim C3 as stated, for every completed run, fails where a write fails: in
  \<open>run_marker_lost\<close> the write of the begin marker fails after \<^verbatim>\<open>set_stderr\<close> has changed
  the mode, the run goes on to its end, and the last flush writes an end marker that no begin
  marker precedes.
\<close>

theorem markers_unbalanced_after_failed_write:
  "outcome run_marker_lost = Some (0, trace_marker_lost) \<and>
   begin_markers trace_marker_lost = 0 \<and> end_markers trace_marker_lost = 1"
  by (simp add: run_marker_lost_def run_simps begin_markers_def end_markers_def)

section \<open>The descriptors of the output\<close>

text \<open>
  Claim C6, as amended. The output of a run goes to two descriptors: every write of a run of
  \<^verbatim>\<open>parent\<close> from the initial state is on descriptor 1 or on descriptor 2. When no write
  fails, the writes in program order obey \<open>scan\<close>: a write to descriptor 1 is made in plain
  mode, a write to descriptor 2 that is not a marker is made between a begin marker and the
  next end marker, which go to descriptor 2 as well, and the mode is plain at the end. When
  moreover the two read ends are distinct, the run has taken the results of its reads from the
  front of the scripts, and what is written comes from what is read: unless a read of the
  standard output of the child has returned 0, the bytes written to descriptor 1 are the bytes
  read from the standard output of the child, in order; unless a read of the standard error of
  the child has returned 0, the bytes written to descriptor 2 that are not a marker are the
  bytes read from the standard error of the child, in order.
\<close>

theorem output_on_two_descriptors:
  assumes "parent so se ps s = Inr (v, ps', s')" and "initial s"
  shows "set (write_fds (trace s')) \<subseteq> {STDOUT_FILENO, STDERR_FILENO} \<and>
         (no_fail (writes s) \<longrightarrow> scan False (trace s') = Some False) \<and>
         (no_fail (writes s) \<and> fst so \<noteq> fst se \<longrightarrow>
            reads s (fst so) = taken s s' (fst so) @ reads s' (fst so) \<and>
            reads s (fst se) = taken s s' (fst se) @ reads s' (fst se) \<and>
            (RdEof \<notin> set (taken s s' (fst so)) \<longrightarrow>
               out_bytes (trace s') = delivered (taken s s' (fst so))) \<and>
            (RdEof \<notin> set (taken s s' (fst se)) \<longrightarrow>
               err_bytes (trace s') = delivered (taken s s' (fst se))))"
proof -
  have fds: "set (write_fds (trace s')) \<subseteq> {STDOUT_FILENO, STDERR_FILENO}"
    by (rule parent_fds [OF assms(1)]) (use assms(2) in \<open>simp add: initial_def\<close>)
  have sc: "scan False (trace s') = Some False" if "no_fail (writes s)"
    using parent_rendered [OF assms(1) initial_rendered [OF assms(2) that]]
    by (simp add: rendered_def)
  have rel: "reads s (fst so) = taken s s' (fst so) @ reads s' (fst so) \<and>
            reads s (fst se) = taken s s' (fst se) @ reads s' (fst se) \<and>
            (RdEof \<notin> set (taken s s' (fst so)) \<longrightarrow>
               out_bytes (trace s') = delivered (taken s s' (fst so))) \<and>
            (RdEof \<notin> set (taken s s' (fst se)) \<longrightarrow>
               err_bytes (trace s') = delivered (taken s s' (fst se)))"
    if n: "no_fail (writes s)" and ne: "fst so \<noteq> fst se"
  proof -
    note R = parent_relayed [OF assms(1,2) n ne]
    have "out_bytes (trace s') = delivered (taken s s' (fst so))"
      if "RdEof \<notin> set (taken s s' (fst so))"
    proof -
      from R that obtain tr e where
        t: "trace s' =
          tr @ [Write STDOUT_FILENO (snd (lines_of (delivered (taken s s' (fst so))))), e]"
        and b: "stdout_blocks tr = fst (lines_of (delivered (taken s s' (fst so))))"
        and e: "write_fds [e] = []"
        by blast
      from no_write_no_block [OF e] t b
      have "out_bytes (trace s') =
          concat (fst (lines_of (delivered (taken s s' (fst so))))) @
          snd (lines_of (delivered (taken s s' (fst so))))"
        by (simp add: out_bytes_def)
      then show ?thesis by (simp add: lines_of_concat)
    qed
    with R show ?thesis by blast
  qed
  from fds sc rel show ?thesis by blast
qed

theorem output_on_two_descriptors_witness:
  "initial init_plain \<and> no_fail (writes init_plain) \<and>
   (\<exists>ps s'. run_plain = Inr (3, ps, s') \<and> trace s' = trace_plain \<and>
      taken init_plain s' 3 = [RdByte CHR ''a'', RdByte (CHR 0x0A)] \<and>
      taken init_plain s' 5 = [RdByte CHR ''x'']) \<and>
   set (write_fds trace_plain) \<subseteq> {STDOUT_FILENO, STDERR_FILENO} \<and>
   scan False trace_plain = Some False \<and>
   out_bytes trace_plain = [CHR ''a'', CHR 0x0A] \<and> err_bytes trace_plain = ''x''"
proof -
  from run_plain_result obtain ps s where
    r: "run_plain = Inr (3, ps, s)" and t: "trace s = trace_plain"
    and e: "reads s 3 = []" "reads s 5 = []" by blast
  have n: "no_fail (writes init_plain)"
    by (simp add: init_plain_def init_state_def no_fail_replicate)
  have k: "taken init_plain s 3 = [RdByte CHR ''a'', RdByte (CHR 0x0A)]"
    "taken init_plain s 5 = [RdByte CHR ''x'']"
    using e by (simp_all add: taken_def init_plain_def init_state_def)
  from output_on_two_descriptors [OF r [unfolded run_plain_def] initial_plain] n t k
  have "set (write_fds trace_plain) \<subseteq> {STDOUT_FILENO, STDERR_FILENO} \<and>
     scan False trace_plain = Some False \<and>
     out_bytes trace_plain = [CHR ''a'', CHR 0x0A] \<and> err_bytes trace_plain = ''x''"
    by simp
  with r t k n initial_plain show ?thesis by blast
qed

text \<open>
  The claim C6 as stated, a single stream to one sink, fails in \<open>run_plain\<close>: the markers and
  the byte of the standard error are written to descriptor 2, the line of the standard output
  and the empty last block to descriptor 1.
\<close>

theorem output_on_two_descriptors_not_one:
  "outcome run_plain = Some (3, trace_plain) \<and> write_fds trace_plain = [2, 2, 2, 1, 1] \<and>
   stdout_blocks trace_plain = [[CHR ''a'', CHR 0x0A], []]"
  by (simp add: run_plain_outcome)
     (simp add: trace_plain_def exited_3_def STDOUT_FILENO_def)

section \<open>The report of an exit\<close>

text \<open>
  Claim C7. When the child has exited with code \<open>N\<close>, that is, \<^verbatim>\<open>wait\<close> gives a status with
  \<^verbatim>\<open>WIFEXITED\<close> and \<^verbatim>\<open>WEXITSTATUS\<close> \<open>N\<close>, then \<open>N\<close> is between 0 and 255; \<^verbatim>\<open>parent\<close> returns \<open>N\<close>
  when the scripts suffice and the last result of \<^verbatim>\<open>poll\<close> leaves the loop; and every run of
  \<^verbatim>\<open>parent\<close> that returns ends by printing the line \<^verbatim>\<open>Exited with status N\<close> between its colour
  codes, and returns \<open>N\<close>, which is then the exit status of the controller.
\<close>

theorem exited_child_reported:
  assumes w: "waits s = WaitOk wpid status # ts"
    and ex: "WIFEXITED status" and n: "WEXITSTATUS status = N"
  shows "0 \<le> N \<and> N \<le> 255 \<and>
         (enough ps (fst so) (fst se) s \<and> fst so \<noteq> fst se \<and> ps \<noteq> [] \<and> leaves (last ps) \<and>
            2 \<le> length (closes s) \<longrightarrow>
            (\<exists>ps' s'. parent so se ps s = Inr (N, ps', s'))) \<and>
         (\<forall>v ps' s'. parent so se ps s = Inr (v, ps', s') \<longrightarrow>
            v = N \<and> exit_status v = N \<and>
            last (trace s') =
              Printf (CHR 0x1B # ''[34mExited with status '' @ fmt_d N @ CHR 0x1B # ''[m''
                @ [CHR 0x0A]))"
proof -
  from WEXITSTATUS_range [of status] n have range: "0 \<le> N \<and> N \<le> 255" by simp
  have res: "v = N \<and> exit_status v = N \<and>
      last (trace s') =
        Printf (CHR 0x1B # ''[34mExited with status '' @ fmt_d N @ CHR 0x1B # ''[m''
          @ [CHR 0x0A])"
    if run: "parent so se ps s = Inr (v, ps', s')" for v ps' s'
  proof -
    from parent_waits [OF run] w obtain s4 where
      "report status wpid (s4\<lparr>waits := ts\<rparr>) = (Some v, s')" by auto
    with ex n have "v = N" and
      "s' = emit (Printf (CHR 0x1B # ''[34mExited with status '' @ fmt_d N @ CHR 0x1B # ''[m''
                @ [CHR 0x0A])) (s4\<lparr>waits := ts\<rparr>)"
      by (auto simp: report_def)
    with range show ?thesis by (simp add: emit_def exit_status_def)
  qed
  have "\<exists>ps' s'. parent so se ps s = Inr (N, ps', s')"
    if "enough ps (fst so) (fst se) s" "fst so \<noteq> fst se" "ps \<noteq> []" "leaves (last ps)"
      "2 \<le> length (closes s)"
  proof -
    from w have "waits s \<noteq> []" by simp
    from parent_returns [OF that this, of "snd so" "snd se"] obtain v ps' s' where
      r: "parent so se ps s = Inr (v, ps', s')" by auto
    with res [OF r] show ?thesis by blast
  qed
  with range res show ?thesis by blast
qed

theorem exited_child_reported_witness:
  "waits init_plain = [WaitOk 77 768] \<and> WIFEXITED 768 \<and> WEXITSTATUS 768 = 3 \<and>
   enough polls_plain 3 5 init_plain \<and> leaves (last polls_plain) \<and>
   (\<exists>ps' s'. run_plain = Inr (3, ps', s') \<and>
      last (trace s') =
        Printf (CHR 0x1B # ''[34mExited with status 3'' @ CHR 0x1B # ''[m'' @ [CHR 0x0A])) \<and>
   exit_status 3 = 3"
proof -
  have w: "waits init_plain = WaitOk 77 768 # []"
    by (simp add: init_plain_def init_state_def)
  have e: "WIFEXITED 768" and n: "WEXITSTATUS 768 = 3"
    by (simp_all add: WIFEXITED_def WTERMSIG_def WEXITSTATUS_def)
  have l: "leaves (last polls_plain)" and p: "polls_plain \<noteq> []"
    by (simp_all add: polls_plain_def)
  have c: "2 \<le> length (closes init_plain)"
    by (simp add: init_plain_def init_state_def)
  have en: "enough polls_plain (fst (3 :: int, 4 :: int)) (fst (5 :: int, 6 :: int)) init_plain"
    using enough_plain by simp
  note T = exited_child_reported [OF w e n,
      where ps = polls_plain and so = "(3, 4)" and se = "(5, 6)"]
  from T en l p c obtain ps' s' where
    r: "parent (3, 4) (5, 6) polls_plain init_plain = Inr (3, ps', s')" by auto
  with T have "exit_status 3 = 3" and
    "last (trace s') =
       Printf (CHR 0x1B # ''[34mExited with status '' @ fmt_d 3 @ CHR 0x1B # ''[m''
         @ [CHR 0x0A])"
    by blast+
  with r w e n l enough_plain show ?thesis
    by (auto simp: run_plain_def fmt_d_def digits.simps)
qed

section \<open>The read ends of the pipes\<close>

text \<open>
  Claim C8 fails on the code: the two calls of \<^verbatim>\<open>close\<close> on the read ends stand behind a
  chain of which every branch returns, and \<^verbatim>\<open>parent\<close> never reaches them. In every run that
  returns, no read end has been closed (the descriptors of the pipes being distinct), where
  the claim has each closed once.
\<close>

theorem read_ends_never_closed:
  assumes run: "parent (r0, w0) (r1, w1) ps s = Inr (v, ps', s')"
    and "closed_fds (trace s) = []" and "r0 \<notin> {w0, w1}" and "r1 \<notin> {w0, w1}"
  shows "count_list (closed_fds (trace s')) r0 = 0 \<and> count_list (closed_fds (trace s')) r1 = 0"
proof -
  let ?P = "\<lambda>t. set (closed_fds (trace t)) \<subseteq> {w0, w1}"
  have "?P s'"
  proof (rule parent_invariant [OF run, where P = ?P])
    show "?P s" using assms(2) by simp
    show "?P (emit (Close fd) (t\<lparr>closes := cs\<rparr>))"
      if "?P t" "fd = snd (r0, w0) \<or> fd = snd (r1, w1)" for t cs fd
      using that by (auto simp: emit_def)
    show "?P (t\<lparr>indet := js, reads := rs\<rparr>)" if "?P t" for t js rs
      using that by simp
    show "?P (t\<lparr>waits := ts\<rparr>)" if "?P t" for t ts
      using that by simp
    show "?P (emit (Perror m) t) \<and> ?P (emit (Eprintf m) t) \<and> ?P (emit (Printf m) t)"
      if "?P t" for t m
      using that by (simp add: emit_def)
    show "?P t'" if "?P t" "flush_stdout_line t = Inr (r, t')" for t r t'
      using that by (simp add: flush_stdout_line_closed)
    show "?P (t\<lparr>stdout_line := l, stdout_line_pos := p\<rparr>)" if "?P t" for t l p
      using that by simp
    show "?P t'" if "?P t" "stderr_putc c t = Inr (r, t')" for t c r t'
      using that by (simp add: stderr_putc_closed)
  qed
  with assms(3,4) show ?thesis
    by (auto simp: count_list_0_iff)
qed

theorem read_ends_never_closed_witness:
  "closed_fds (trace init_plain) = [] \<and>
   outcome run_plain = Some (3, trace_plain) \<and>
   closed_fds trace_plain = [4, 6] \<and>
   count_list (closed_fds trace_plain) 3 = 0 \<and> count_list (closed_fds trace_plain) 5 = 0"
proof -
  from outcome_SomeD [OF run_plain_outcome] obtain ps s where
    r: "run_plain = Inr (3, ps, s)" and t: "trace s = trace_plain" by blast
  have i: "closed_fds (trace init_plain) = []"
    by (simp add: init_plain_def init_state_def)
  from read_ends_never_closed [OF r [unfolded run_plain_def] i] t
  have "count_list (closed_fds trace_plain) 3 = 0 \<and> count_list (closed_fds trace_plain) 5 = 0"
    by simp
  moreover have "closed_fds trace_plain = [4, 6]"
    by (simp add: trace_plain_def exited_3_def)
  ultimately show ?thesis using run_plain_outcome i by simp
qed

section \<open>A read of no byte\<close>

text \<open>
  Claim C1 fails on the code: \<^verbatim>\<open>parent\<close> tests the result of \<^verbatim>\<open>read_nointr\<close> for -1 only, and
  after a read of no byte it hands the uninitialised \<^verbatim>\<open>c\<close> to the renderer. In \<open>run_eof\<close> the
  child has written nothing, and the byte \<open>?\<close> that \<^verbatim>\<open>c\<close> happened to hold is written to the
  standard output.
\<close>

theorem eof_read_forwards_indeterminate_byte:
  "outcome run_eof = Some (0, [Close 4, Close 6, Write 1 ''?'', exited_0])"
  by (simp add: run_eof_def run_simps)

section \<open>Interrupted calls\<close>

text \<open>
  Claim C4 fails on the code for \<^verbatim>\<open>poll\<close> and \<^verbatim>\<open>wait\<close>, which are called once and not again
  when they fail with \<^verbatim>\<open>EINTR\<close>, as \<^verbatim>\<open>read\<close> and \<^verbatim>\<open>write\<close> are. In \<open>run_interrupted\<close> the
  interrupted \<^verbatim>\<open>poll\<close> ends the loop, so that the byte the child has written is never read, and
  the interrupted \<^verbatim>\<open>wait\<close> makes \<^verbatim>\<open>parent\<close> return \<^verbatim>\<open>EXIT_FAILURE\<close> without a report; the later
  results of both scripts are left over.
\<close>

theorem poll_and_wait_not_retried:
  "outcome run_interrupted =
     Some (1, [Close 4, Close 6, Perror ''poll()'', Write 1 [], Perror ''wait()'']) \<and>
   leftover run_interrupted =
     Some ([PollOk {POLLIN} {}, PollOk {POLLHUP} {POLLHUP}], [WaitOk 77 0])"
  by (simp add: run_interrupted_def run_simps)

section \<open>A write that fails\<close>

text \<open>
  Claim C5 fails on the code: \<^verbatim>\<open>parent\<close> drops the return values of \<^verbatim>\<open>stdout_putc\<close> and
  \<^verbatim>\<open>stderr_putc\<close>, so that a write that fails does not end the loop. In \<open>run_write_fails\<close>
  the write of the begin marker fails while \<open>x\<close> is rendered; the loop goes on, reads \<open>y\<close> and
  writes it. The child is reaped and reported, as the claim says.
\<close>

theorem loop_continues_after_failed_write:
  "outcome run_write_fails =
     Some (0, [Close 4, Close 6, Write 2 [], Perror ''write()'', Write 2 ''y'',
               Write 2 [CHR 0x1B, CHR ''['', CHR ''m'', CHR 0x00], Write 1 [], exited_0])"
  by (simp add: run_write_fails_def run_simps)

section \<open>A line of the size of the buffer\<close>

text \<open>
  Claim C2, as amended. Take a run of \<^verbatim>\<open>parent\<close> from the initial state, with two distinct
  read ends, in which no write fails. The run returns when the scripts suffice and the last
  result of \<^verbatim>\<open>poll\<close> leaves the loop. Whenever it returns, and its reads of the standard
  output of the child have delivered exactly 1024 bytes, none of them a newline, and none of
  these reads has returned 0, the line buffer has been written exactly once, as one block of
  the 1024 bytes; the write is that of the last flush, at the end of the run: before it
  nothing has gone to the standard output, and after it only the report of the reaper follows.
\<close>

theorem full_line_flushed_at_end_of_run:
  assumes init: "initial s" and ne: "fst so \<noteq> fst se"
    and len: "length bs = 1024" and nl: "CHR 0x0A \<notin> set bs" and ok: "no_fail (writes s)"
  shows "(enough ps (fst so) (fst se) s \<and> ps \<noteq> [] \<and> leaves (last ps) \<and>
            2 \<le> length (closes s) \<and> waits s \<noteq> [] \<longrightarrow>
            (\<exists>v ps' s'. parent so se ps s = Inr (v, ps', s'))) \<and>
         (\<forall>v ps' s'. parent so se ps s = Inr (v, ps', s') \<and>
              delivered (taken s s' (fst so)) = bs \<and> RdEof \<notin> set (taken s s' (fst so)) \<longrightarrow>
            stdout_blocks (trace s') = [bs] \<and>
            (\<exists>tr e. trace s' = tr @ [Write STDOUT_FILENO bs, e] \<and> stdout_blocks tr = [] \<and>
               write_fds [e] = []))"
proof -
  have returns: "\<exists>v ps' s'. parent so se ps s = Inr (v, ps', s')"
    if "enough ps (fst so) (fst se) s" "ps \<noteq> []" "leaves (last ps)"
      "2 \<le> length (closes s)" "waits s \<noteq> []"
    using parent_returns [OF that(1) ne that(2-5), of "snd so" "snd se"] by simp
  have flushed: "stdout_blocks (trace s') = [bs] \<and>
      (\<exists>tr e. trace s' = tr @ [Write STDOUT_FILENO bs, e] \<and> stdout_blocks tr = [] \<and>
         write_fds [e] = [])"
    if run: "parent so se ps s = Inr (v, ps', s')"
      and d: "delivered (taken s s' (fst so)) = bs" and z: "RdEof \<notin> set (taken s s' (fst so))"
    for v ps' s'
  proof -
    from len nl have l: "lines_of bs = ([], bs)" by (simp add: lines_of_short)
    from parent_relayed [OF run init ok ne] z obtain tr e where
      t: "trace s' =
        tr @ [Write STDOUT_FILENO (snd (lines_of (delivered (taken s s' (fst so))))), e]"
      and b: "stdout_blocks tr = fst (lines_of (delivered (taken s s' (fst so))))"
      and e: "write_fds [e] = []"
      by blast
    from t d l have t': "trace s' = tr @ [Write STDOUT_FILENO bs, e]" by simp
    from b d l have b': "stdout_blocks tr = []" by simp
    from t' b' no_write_no_block [OF e] have "stdout_blocks (trace s') = [bs]" by simp
    with t' b' e show ?thesis by blast
  qed
  from returns flushed show ?thesis by blast
qed

theorem full_line_flushed_at_end_of_run_witness:
  "initial init_full \<and>
   length (replicate 1024 CHR ''a'') = 1024 \<and> CHR 0x0A \<notin> set (replicate 1024 CHR ''a'') \<and>
   no_fail (writes init_full) \<and> enough polls_full 3 5 init_full \<and> leaves (last polls_full) \<and>
   (\<exists>s'. run_full = Inr (0, [], s') \<and>
         taken init_full s' 3 = map RdByte (replicate 1024 CHR ''a'') \<and>
         delivered (taken init_full s' 3) = replicate 1024 CHR ''a'' \<and>
         stdout_blocks (trace s') = [replicate 1024 CHR ''a''])"
proof -
  have n: "no_fail (writes init_full)"
    by (simp add: init_full_def init_state_def no_fail_replicate)
  have d: "fst (3 :: int, 4 :: int) \<noteq> fst (5 :: int, 6 :: int)" by simp
  have l: "leaves (last polls_full)" by (simp add: polls_full_def)
  from run_full_result obtain s' where r: "run_full = Inr (0, [], s')" and a: "reads s' 3 = []"
    by blast
  have k: "taken init_full s' 3 = map RdByte (replicate 1024 CHR ''a'')"
    using a by (simp add: taken_def init_full_def init_state_def)
  have k': "delivered (taken init_full s' (fst (3 :: int, 4 :: int))) = replicate 1024 CHR ''a''"
    by (simp only: fst_conv k delivered_map)
  have z: "RdEof \<notin> set (taken init_full s' (fst (3 :: int, 4 :: int)))"
    by (simp only: fst_conv k) auto
  note T = full_line_flushed_at_end_of_run [OF initial_full d _ _ n,
      where ps = polls_full and bs = "replicate 1024 CHR ''a''"]
  have "stdout_blocks (trace s') = [replicate 1024 CHR ''a'']"
    using T r [unfolded run_full_def] k' z by auto
  with r k k' n l initial_full enough_full show ?thesis by auto
qed

text \<open>
  The claim C2 as stated, a flush when the 1024th byte is handled, fails: \<^verbatim>\<open>stdout_putc\<close>
  tests the position before it stores, so that after 1024 calls the buffer is full and nothing
  has been written; and in \<open>run_full\<close> the byte \<open>x\<close> of the standard error, which comes after
  the 1024th byte of the standard output, is written before the line.
\<close>

theorem full_line_not_flushed_at_capacity:
  "seen (stdout_putcs (replicate 1024 CHR ''a'') (init_state [] [] (\<lambda>fd. []) [] []))
     = Some ([], 1024) \<and>
   outcome run_full = Some (0, trace_full)"
proof -
  have "\<exists>s1. stdout_putcs (replicate 1024 CHR ''a'') (init_state [] [] (\<lambda>fd. []) [] []) = Inr s1 \<and>
      stdout_line_pos s1 = stdout_line_pos (init_state [] [] (\<lambda>fd. []) [] [])
         + length (replicate 1024 CHR ''a'') \<and>
      take (stdout_line_pos s1) (stdout_line s1) =
         take (stdout_line_pos (init_state [] [] (\<lambda>fd. []) [] []))
           (stdout_line (init_state [] [] (\<lambda>fd. []) [] [])) @ replicate 1024 CHR ''a'' \<and>
      trace s1 = trace (init_state [] [] (\<lambda>fd. []) [] []) \<and>
      writes s1 = writes (init_state [] [] (\<lambda>fd. []) [] []) \<and>
      in_stderr s1 = in_stderr (init_state [] [] (\<lambda>fd. []) [] [])"
    by (rule stdout_putcs_fill) (simp_all add: init_state_def sizeof_def)
  then have "seen (stdout_putcs (replicate 1024 CHR ''a'') (init_state [] [] (\<lambda>fd. []) [] []))
     = Some ([], 1024)"
    by (auto simp: seen_def init_state_def)
  moreover have "outcome run_full = Some (0, trace_full)"
  proof -
    from run_full_result obtain s' where r: "run_full = Inr (0, [], s')" "trace s' = trace_full"
      by blast
    show ?thesis unfolding r(1) by (simp add: outcome_def r(2))
  qed
  ultimately show ?thesis by simp
qed

end
